theory Spec2Isabelle
  imports Main "HOL-Library.Tree" "HOL-Library.Tree_Multiset" "HOL-Library.Word"
begin

section \<open>The node store\<close>

text \<open>
  The container of \<^verbatim>\<open>priority_queue.hpp\<close> is a binary tree of heap-allocated
  \<^verbatim>\<open>LeftistNode\<close> objects that are linked by raw pointers and rewired in place.
  The embedding keeps that shape: a pointer is an optional address (\<open>None\<close> is
  \<^verbatim>\<open>nullptr\<close>), the free store is a partial map from addresses to node records, and
  every function of the source takes the store and returns the updated one.

  The field \<^verbatim>\<open>value\<close> is called \<open>val\<close> here, because \<open>value\<close> is a
  command of the proof language.
\<close>

type_synonym addr = nat
type_synonym ptr = "addr option"

record 'a LeftistNode =
  val :: 'a
  ls :: ptr
  rs :: ptr

type_synonym 'a cells = "addr \<Rightarrow> 'a LeftistNode option"

text \<open>
  Three things can go wrong in the source. \<^verbatim>\<open>container_is_empty\<close> is the exception
  of \<^verbatim>\<open>exceptions.hpp\<close> thrown by \<^verbatim>\<open>top\<close> and \<^verbatim>\<open>pop\<close>.
  \<open>compare_failed\<close> stands for an exception thrown by the user's \<^verbatim>\<open>Compare\<close>
  functor: the comparator is a function into \<open>bool option\<close> and \<open>None\<close> is a throw.
  \<open>invalid_access\<close> marks a dereference of a null or dangling pointer, which is undefined
  behaviour in C++ and is no exception: no \<^verbatim>\<open>catch\<close> block sees it.
\<close>

datatype error = container_is_empty | compare_failed | invalid_access

type_synonym 'a compare = "'a \<Rightarrow> 'a \<Rightarrow> bool option"

subsection \<open>MergeNode\<close>

text \<open>
  \<^verbatim>\<open>MergeNode(a, b)\<close>, lines 75 to 84. The comparison \<^verbatim>\<open>*a < *b\<close> is
  \<^verbatim>\<open>Compare{}(a->value, b->value)\<close>. After the optional exchange of the two local
  pointers, \<open>x\<close> is the node that stays on top and \<open>y\<close> the other one. The recursive call
  runs on the store as it is, its result is written to \<^verbatim>\<open>x->rs\<close>, and then the two
  child pointers of \<open>x\<close> are exchanged, so that the merged tree ends up as the left child
  and the former left child as the right one. The fields of \<open>x\<close> are read again after the
  recursive call, as the source does.

  The recursion follows pointers through a store that may hold cycles, so the function is
  partial: \<open>None\<close> means that the call does not return.
\<close>

partial_function (option) MergeNode ::
  "'a compare \<Rightarrow> ptr \<Rightarrow> ptr \<Rightarrow> 'a cells \<Rightarrow> ((error + ptr) \<times> 'a cells) option" where
  "MergeNode cmp a b h =
    (case a of None \<Rightarrow> Some (Inr b, h) | Some pa \<Rightarrow>
    (case b of None \<Rightarrow> Some (Inr a, h) | Some pb \<Rightarrow>
    (case h pa of None \<Rightarrow> Some (Inl invalid_access, h) | Some na \<Rightarrow>
    (case h pb of None \<Rightarrow> Some (Inl invalid_access, h) | Some nb \<Rightarrow>
    (case cmp (val na) (val nb) of None \<Rightarrow> Some (Inl compare_failed, h) | Some lt \<Rightarrow>
       (let x = (if lt then pb else pa);
            y = (if lt then pa else pb);
            nx = (if lt then nb else na) in
        Option.bind (MergeNode cmp (rs nx) (Some y) h) (\<lambda>(r, h').
          (case r of Inl e \<Rightarrow> Some (Inl e, h') | Inr m \<Rightarrow>
            (case h' x of None \<Rightarrow> Some (Inl invalid_access, h')
             | Some n1 \<Rightarrow> Some (Inr (Some x), h'(x \<mapsto> n1\<lparr>ls := m, rs := ls n1\<rparr>)))))))))))"

declare MergeNode.simps [code]

text \<open>
  The pair of pointers that \<^verbatim>\<open>MergeNode(a, b)\<close> passes to its recursive call, when it
  makes one: the right child of the node that stays on top, and the other node.
\<close>

definition MergeNode_call :: "'a compare \<Rightarrow> ptr \<Rightarrow> ptr \<Rightarrow> 'a cells \<Rightarrow> (ptr \<times> ptr) option" where
  "MergeNode_call cmp a b h =
    (case a of None \<Rightarrow> None | Some pa \<Rightarrow>
    (case b of None \<Rightarrow> None | Some pb \<Rightarrow>
    (case h pa of None \<Rightarrow> None | Some na \<Rightarrow>
    (case h pb of None \<Rightarrow> None | Some nb \<Rightarrow>
    (case cmp (val na) (val nb) of None \<Rightarrow> None | Some lt \<Rightarrow>
       Some (rs (if lt then nb else na), Some (if lt then pa else pb)))))))"

section \<open>Trees in the store\<close>

text \<open>
  A finite tree whose nodes carry their address and their value describes what a pointer
  leads to: \<open>tree_at h p t\<close> says that following \<open>p\<close> through the store \<open>h\<close> unfolds to
  exactly \<open>t\<close>. The addresses of \<open>t\<close> are the nodes reachable from \<open>p\<close>; when they are
  pairwise distinct the nodes form a proper tree with no sharing.
\<close>

fun tree_at :: "'a cells \<Rightarrow> ptr \<Rightarrow> (addr \<times> 'a) tree \<Rightarrow> bool" where
  "tree_at h p Leaf = (p = None)"
| "tree_at h p (Node l (a, v) r) =
    (p = Some a \<and>
     (case h a of None \<Rightarrow> False
      | Some n \<Rightarrow> val n = v \<and> tree_at h (ls n) l \<and> tree_at h (rs n) r))"

definition addrs :: "(addr \<times> 'a) tree \<Rightarrow> addr list" where
  "addrs t = map fst (preorder t)"

definition elems :: "(addr \<times> 'a) tree \<Rightarrow> 'a tree" where
  "elems t = map_tree snd t"

fun root_ptr :: "(addr \<times> 'a) tree \<Rightarrow> ptr" where
  "root_ptr Leaf = None"
| "root_ptr (Node l (a, v) r) = Some a"

text \<open>
  The merge of the specification, section 4.1, on trees: an absent operand gives the other
  one; otherwise the roots are compared once, in the order (first, second); when the
  comparison holds the second root stays on top, otherwise (ties included) the first; the
  other tree is merged with the previous right subtree of the top node, and the result
  becomes the left subtree while the previous left subtree becomes the right one.
\<close>

function Merge_spec :: "('b \<Rightarrow> 'b \<Rightarrow> bool) \<Rightarrow> 'b tree \<Rightarrow> 'b tree \<Rightarrow> 'b tree" where
  "Merge_spec lt Leaf b = b"
| "Merge_spec lt (Node l1 x r1) Leaf = Node l1 x r1"
| "Merge_spec lt (Node l1 x r1) (Node l2 y r2) =
    (if lt x y then Node (Merge_spec lt r2 (Node l1 x r1)) y l2
     else Node (Merge_spec lt r1 (Node l2 y r2)) x l1)"
  by pat_completeness auto
termination
  by (relation "measure (\<lambda>(lt, a, b). size a + size b)") auto

text \<open>The comparator as a relation on nodes that carry an address.\<close>

definition holds :: "'a compare \<Rightarrow> (addr \<times> 'a) \<Rightarrow> (addr \<times> 'a) \<Rightarrow> bool" where
  "holds cmp x y = (cmp (snd x) (snd y) = Some True)"

definition total :: "('a \<Rightarrow> 'a \<Rightarrow> bool) \<Rightarrow> 'a compare" where
  "total lt x y = Some (lt x y)"

text \<open>
  Heap order, as the specification states it: no node is strictly dominated by a child,
  that is, the comparator does not hold between a node and the root of either subtree.
\<close>

fun dominated :: "('b \<Rightarrow> 'b \<Rightarrow> bool) \<Rightarrow> 'b \<Rightarrow> 'b tree \<Rightarrow> bool" where
  "dominated lt x Leaf = False"
| "dominated lt x (Node l y r) = lt x y"

fun heap_order :: "('b \<Rightarrow> 'b \<Rightarrow> bool) \<Rightarrow> 'b tree \<Rightarrow> bool" where
  "heap_order lt Leaf = True"
| "heap_order lt (Node l x r) =
    (\<not> dominated lt x l \<and> \<not> dominated lt x r \<and> heap_order lt l \<and> heap_order lt r)"

text \<open>
  The tree that \<^verbatim>\<open>copy\<close> builds from a tree: the same shape and values, on the
  addresses \<open>k\<close>, \<open>k + 1\<close>, ... handed out in the order of the allocations (a node, then
  its left subtree, then its right subtree).
\<close>

fun relabel :: "addr \<Rightarrow> (addr \<times> 'a) tree \<Rightarrow> (addr \<times> 'a) tree" where
  "relabel k Leaf = Leaf"
| "relabel k (Node l (a, v) r) = Node (relabel (Suc k) l) (k, v) (relabel (Suc k + size l) r)"

section \<open>The container\<close>

text \<open>
  A \<^verbatim>\<open>priority_queue\<close> object holds \<^verbatim>\<open>size_t capacity\<close> and
  \<^verbatim>\<open>LeftistNode *root\<close>. The widths are those of the LP64 and LLP64 data models:
  \<^verbatim>\<open>size_t\<close> has 64 bits and \<^verbatim>\<open>int\<close> (used by \<^verbatim>\<open>pop\<close>) has 32.

  Objects are addressed too: \<^verbatim>\<open>operator=\<close> compares \<^verbatim>\<open>&other\<close> with
  \<^verbatim>\<open>this\<close>, and \<^verbatim>\<open>merge\<close> writes to both of its operands. The state is the
  memory of the queue objects, the node store, and the next address that \<^verbatim>\<open>new\<close>
  hands out. \<^verbatim>\<open>new\<close> always succeeds and never reuses an address.
\<close>

record priority_queue =
  capacity :: "64 word"
  root :: ptr

record 'a state =
  objs :: "nat \<Rightarrow> priority_queue"
  cells :: "'a cells"
  fresh :: addr

text \<open>
  \<^verbatim>\<open>ClearNode\<close> and \<^verbatim>\<open>copy\<close> take a reference to a pointer
  (\<^verbatim>\<open>LeftistNode *&\<close>): the root field of a queue object or a child field of a
  node. \<open>load\<close> and \<open>store\<close> read and write through such a reference; both fail when
  the field lies in a node that is not allocated.
\<close>

datatype loc = root_of nat | ls_of addr | rs_of addr

definition load :: "loc \<Rightarrow> 'a state \<Rightarrow> ptr option" where
  "load l st =
    (case l of
       root_of q \<Rightarrow> Some (root (objs st q))
     | ls_of a \<Rightarrow> map_option ls (cells st a)
     | rs_of a \<Rightarrow> map_option rs (cells st a))"

definition store :: "loc \<Rightarrow> ptr \<Rightarrow> 'a state \<Rightarrow> 'a state option" where
  "store l p st =
    (case l of
       root_of q \<Rightarrow> Some (st\<lparr>objs := (objs st)(q := (objs st q)\<lparr>root := p\<rparr>)\<rparr>)
     | ls_of a \<Rightarrow>
        (case cells st a of None \<Rightarrow> None
         | Some n \<Rightarrow> Some (st\<lparr>cells := (cells st)(a \<mapsto> n\<lparr>ls := p\<rparr>)\<rparr>))
     | rs_of a \<Rightarrow>
        (case cells st a of None \<Rightarrow> None
         | Some n \<Rightarrow> Some (st\<lparr>cells := (cells st)(a \<mapsto> n\<lparr>rs := p\<rparr>)\<rparr>)))"

subsection \<open>ClearNode and copy\<close>

text \<open>
  \<^verbatim>\<open>ClearNode(now)\<close>, lines 48 to 53: return on a null pointer; clear
  \<^verbatim>\<open>now->ls\<close>, then \<^verbatim>\<open>now->rs\<close>; delete the node; set \<^verbatim>\<open>now\<close> to
  null. \<^verbatim>\<open>now\<close> is a reference and is read again at each use.
\<close>

partial_function (option) ClearNode ::
  "loc \<Rightarrow> 'a state \<Rightarrow> ((error + unit) \<times> 'a state) option" where
  "ClearNode now st =
    (case load now st of None \<Rightarrow> Some (Inl invalid_access, st)
     | Some None \<Rightarrow> Some (Inr (), st)
     | Some (Some a) \<Rightarrow>
        Option.bind (ClearNode (ls_of a) st) (\<lambda>(r1, st1).
          (case r1 of Inl e \<Rightarrow> Some (Inl e, st1) | Inr u1 \<Rightarrow>
            (case load now st1 of None \<Rightarrow> Some (Inl invalid_access, st1)
             | Some None \<Rightarrow> Some (Inl invalid_access, st1)
             | Some (Some a1) \<Rightarrow>
                Option.bind (ClearNode (rs_of a1) st1) (\<lambda>(r2, st2).
                  (case r2 of Inl e \<Rightarrow> Some (Inl e, st2) | Inr u2 \<Rightarrow>
                    (case load now st2 of None \<Rightarrow> Some (Inl invalid_access, st2)
                     | Some None \<Rightarrow> Some (Inr (), st2)
                     | Some (Some a2) \<Rightarrow>
                        (if cells st2 a2 = None then Some (Inl invalid_access, st2)
                         else
                          (case store now None (st2\<lparr>cells := (cells st2)(a2 := None)\<rparr>) of
                             None \<Rightarrow> Some (Inl invalid_access, st2\<lparr>cells := (cells st2)(a2 := None)\<rparr>)
                           | Some st3 \<Rightarrow> Some (Inr (), st3))))))))))"

declare ClearNode.simps [code]

text \<open>
  \<^verbatim>\<open>copy(one, another)\<close>, lines 90 to 94: return on a null source, leaving
  \<^verbatim>\<open>one\<close> as it was; otherwise allocate a node with the source's value and null
  children, store its address in \<^verbatim>\<open>one\<close>, and copy the two subtrees into the
  child fields of the new node.
\<close>

partial_function (option) copy ::
  "loc \<Rightarrow> ptr \<Rightarrow> 'a state \<Rightarrow> ((error + unit) \<times> 'a state) option" where
  "copy one another st =
    (case another of None \<Rightarrow> Some (Inr (), st)
     | Some b \<Rightarrow>
        (case cells st b of None \<Rightarrow> Some (Inl invalid_access, st)
         | Some nb \<Rightarrow>
            (let a = fresh st;
                 st1 = st\<lparr>cells := (cells st)(a \<mapsto> \<lparr>val = val nb, ls = None, rs = None\<rparr>),
                          fresh := Suc a\<rparr> in
             (case store one (Some a) st1 of None \<Rightarrow> Some (Inl invalid_access, st1)
              | Some st2 \<Rightarrow>
                 (case load one st2 of None \<Rightarrow> Some (Inl invalid_access, st2)
                  | Some None \<Rightarrow> Some (Inl invalid_access, st2)
                  | Some (Some a1) \<Rightarrow>
                     (case cells st2 b of None \<Rightarrow> Some (Inl invalid_access, st2)
                      | Some nb1 \<Rightarrow>
                         Option.bind (copy (ls_of a1) (ls nb1) st2) (\<lambda>(r1, st3).
                           (case r1 of Inl e \<Rightarrow> Some (Inl e, st3) | Inr u1 \<Rightarrow>
                             (case load one st3 of None \<Rightarrow> Some (Inl invalid_access, st3)
                              | Some None \<Rightarrow> Some (Inl invalid_access, st3)
                              | Some (Some a2) \<Rightarrow>
                                 (case cells st3 b of None \<Rightarrow> Some (Inl invalid_access, st3)
                                  | Some nb2 \<Rightarrow> copy (rs_of a2) (rs nb2) st3))))))))))"

declare copy.simps [code]

subsection \<open>Constructors, destructor, assignment\<close>

text \<open>
  Constructing an object at address \<open>q\<close> writes the fields that the constructor
  initialises; a field it does not initialise keeps whatever the memory held.
  \<^verbatim>\<open>priority_queue()\<close>, line 106, sets both fields. The constructor from a node
  pointer, lines 108 to 110, and the copy constructor, lines 112 to 115, set
  \<^verbatim>\<open>capacity\<close> only and then call \<^verbatim>\<open>copy(root, ...)\<close>.
\<close>

definition priority_queue_default :: "nat \<Rightarrow> 'a state \<Rightarrow> 'a state" where
  "priority_queue_default q st = st\<lparr>objs := (objs st)(q := \<lparr>capacity = 0, root = None\<rparr>)\<rparr>"

definition priority_queue_from_node ::
  "nat \<Rightarrow> ptr \<Rightarrow> 64 word \<Rightarrow> 'a state \<Rightarrow> ((error + unit) \<times> 'a state) option" where
  "priority_queue_from_node q root' capacity' st =
    copy (root_of q) root' (st\<lparr>objs := (objs st)(q := (objs st q)\<lparr>capacity := capacity'\<rparr>)\<rparr>)"

definition priority_queue_copy ::
  "nat \<Rightarrow> nat \<Rightarrow> 'a state \<Rightarrow> ((error + unit) \<times> 'a state) option" where
  "priority_queue_copy q other st =
    (let st1 = st\<lparr>objs := (objs st)(q := (objs st q)\<lparr>capacity := capacity (objs st other)\<rparr>)\<rparr>
     in copy (root_of q) (root (objs st1 other)) st1)"

definition priority_queue_destroy :: "nat \<Rightarrow> 'a state \<Rightarrow> ((error + unit) \<times> 'a state) option" where
  "priority_queue_destroy q st = ClearNode (root_of q) st"

text \<open>\<^verbatim>\<open>operator=\<close>, lines 125 to 131.\<close>

definition assign :: "nat \<Rightarrow> nat \<Rightarrow> 'a state \<Rightarrow> ((error + unit) \<times> 'a state) option" where
  "assign q other st =
    (if other = q then Some (Inr (), st)
     else
      Option.bind (ClearNode (root_of q) st) (\<lambda>(r1, st1).
        (case r1 of Inl e \<Rightarrow> Some (Inl e, st1) | Inr u1 \<Rightarrow>
          Option.bind (copy (root_of q) (root (objs st1 other)) st1) (\<lambda>(r2, st2).
            (case r2 of Inl e \<Rightarrow> Some (Inl e, st2) | Inr u2 \<Rightarrow>
              Some (Inr (), st2\<lparr>objs := (objs st2)(q := (objs st2 q)
                                   \<lparr>capacity := capacity (objs st2 other)\<rparr>)\<rparr>))))))"

subsection \<open>The queue operations\<close>

definition size_pq :: "nat \<Rightarrow> 'a state \<Rightarrow> 64 word" where
  "size_pq q st = capacity (objs st q)"

definition empty_pq :: "nat \<Rightarrow> 'a state \<Rightarrow> bool" where
  "empty_pq q st = (capacity (objs st q) = 0)"

text \<open>\<^verbatim>\<open>top\<close>, lines 137 to 140, a \<^verbatim>\<open>const\<close> member: it returns a value only.\<close>

definition top_pq :: "nat \<Rightarrow> 'a state \<Rightarrow> error + 'a" where
  "top_pq q st =
    (if empty_pq q st then Inl container_is_empty
     else
      (case root (objs st q) of None \<Rightarrow> Inl invalid_access
       | Some a \<Rightarrow> (case cells st a of None \<Rightarrow> Inl invalid_access | Some n \<Rightarrow> Inr (val n))))"

text \<open>
  \<^verbatim>\<open>push\<close>, lines 144 to 153. An exception out of \<^verbatim>\<open>MergeNode\<close> is caught:
  the new node is deleted and the call returns normally.
\<close>

definition push :: "'a compare \<Rightarrow> 'a \<Rightarrow> nat \<Rightarrow> 'a state \<Rightarrow> ((error + unit) \<times> 'a state) option" where
  "push cmp e q st =
    (let node_pointer = fresh st;
         st1 = st\<lparr>cells := (cells st)(node_pointer \<mapsto> \<lparr>val = e, ls = None, rs = None\<rparr>),
                  fresh := Suc node_pointer\<rparr> in
     Option.bind (MergeNode cmp (root (objs st1 q)) (Some node_pointer) (cells st1)) (\<lambda>(r, h).
       (case r of
          Inl err \<Rightarrow>
            (if err = invalid_access then Some (Inl invalid_access, st1\<lparr>cells := h\<rparr>)
             else Some (Inr (), st1\<lparr>cells := h(node_pointer := None)\<rparr>))
        | Inr p \<Rightarrow>
            Some (Inr (), st1\<lparr>cells := h,
                              objs := (objs st1)(q := \<lparr>capacity = capacity (objs st1 q) + 1,
                                                       root = p\<rparr>)\<rparr>))))"

text \<open>
  \<^verbatim>\<open>pop\<close>, lines 158 to 169. \<^verbatim>\<open>int siz = capacity - 1\<close> converts the 64-bit
  difference to a 32-bit signed integer, and \<^verbatim>\<open>capacity = siz\<close> converts it back
  with sign extension. An exception out of \<^verbatim>\<open>MergeNode\<close> is caught and the call
  returns normally, before \<^verbatim>\<open>root\<close> and \<^verbatim>\<open>capacity\<close> are assigned and before
  the old root is deleted.
\<close>

definition pop :: "'a compare \<Rightarrow> nat \<Rightarrow> 'a state \<Rightarrow> ((error + unit) \<times> 'a state) option" where
  "pop cmp q st =
    (if empty_pq q st then Some (Inl container_is_empty, st)
     else
      (let siz = (ucast (capacity (objs st q) - 1) :: 32 word);
           before = root (objs st q) in
       (case before of None \<Rightarrow> Some (Inl invalid_access, st)
        | Some pb \<Rightarrow>
           (case cells st pb of None \<Rightarrow> Some (Inl invalid_access, st)
            | Some nb \<Rightarrow>
               Option.bind (MergeNode cmp (ls nb) (rs nb) (cells st)) (\<lambda>(r, h).
                 (case r of
                    Inl err \<Rightarrow>
                      (if err = invalid_access then Some (Inl invalid_access, st\<lparr>cells := h\<rparr>)
                       else Some (Inr (), st\<lparr>cells := h\<rparr>))
                  | Inr p \<Rightarrow>
                      (if h pb = None then Some (Inl invalid_access, st\<lparr>cells := h\<rparr>)
                       else
                        Some (Inr (), st\<lparr>cells := h(pb := None),
                                          objs := (objs st)(q := \<lparr>capacity = scast siz,
                                                                  root = p\<rparr>)\<rparr>))))))))"

text \<open>
  \<^verbatim>\<open>merge\<close>, lines 187 to 195. The four assignments are made one after the other
  on the object memory, so the model also says what happens when \<^verbatim>\<open>other\<close> is the
  receiver itself.
\<close>

definition merge :: "'a compare \<Rightarrow> nat \<Rightarrow> nat \<Rightarrow> 'a state \<Rightarrow> ((error + unit) \<times> 'a state) option" where
  "merge cmp q other st =
    Option.bind (MergeNode cmp (root (objs st q)) (root (objs st other)) (cells st)) (\<lambda>(r, h).
      (case r of
         Inl err \<Rightarrow>
           (if err = invalid_access then Some (Inl invalid_access, st\<lparr>cells := h\<rparr>)
            else Some (Inr (), st\<lparr>cells := h\<rparr>))
       | Inr p \<Rightarrow>
           (let o1 = (objs st)(q := (objs st q)\<lparr>root := p\<rparr>);
                o2 = o1(q := (o1 q)\<lparr>capacity := capacity (o1 q) + capacity (o1 other)\<rparr>);
                o3 = o2(other := (o2 other)\<lparr>capacity := 0\<rparr>);
                o4 = o3(other := (o3 other)\<lparr>root := None\<rparr>)
            in Some (Inr (), st\<lparr>cells := h, objs := o4\<rparr>))))"

section \<open>Programs over several queues\<close>

text \<open>
  A client program is a list of calls on queue objects. A \<^verbatim>\<open>container_is_empty\<close>
  thrown by \<^verbatim>\<open>pop\<close> is caught by the client, which goes on; a run that meets
  undefined behaviour or does not return has no final state.
\<close>

datatype 'a call = Push nat 'a | Pop nat | Merge nat nat | Assign nat nat

fun exec :: "'a compare \<Rightarrow> 'a call \<Rightarrow> 'a state \<Rightarrow> ((error + unit) \<times> 'a state) option" where
  "exec cmp (Push q e) st = push cmp e q st"
| "exec cmp (Pop q) st = pop cmp q st"
| "exec cmp (Merge q other) st = merge cmp q other st"
| "exec cmp (Assign q other) st = assign q other st"

fun run :: "'a compare \<Rightarrow> 'a call list \<Rightarrow> 'a state \<Rightarrow> 'a state option" where
  "run cmp [] st = Some st"
| "run cmp (c # cs) st =
    (case exec cmp c st of None \<Rightarrow> None
     | Some (r, st') \<Rightarrow> if r = Inl invalid_access then None else run cmp cs st')"

text \<open>The state in which every queue object is a freshly constructed, empty queue.\<close>

definition init :: "'a state" where
  "init = \<lparr>objs = (\<lambda>q. \<lparr>capacity = 0, root = None\<rparr>), cells = Map.empty, fresh = 0\<rparr>"

section \<open>Notions used in the proofs\<close>

text \<open>
  The node, if any, in which a referenced pointer field lies; writing a pointer through a
  reference whose field is allocated; removing a set of nodes from the store.
\<close>

fun loc_cell :: "loc \<Rightarrow> addr option" where
  "loc_cell (root_of q) = None"
| "loc_cell (ls_of a) = Some a"
| "loc_cell (rs_of a) = Some a"

fun set_loc :: "loc \<Rightarrow> ptr \<Rightarrow> 'a state \<Rightarrow> 'a state" where
  "set_loc (root_of q) p st = st\<lparr>objs := (objs st)(q := (objs st q)\<lparr>root := p\<rparr>)\<rparr>"
| "set_loc (ls_of a) p st = st\<lparr>cells := (\<lambda>x. if x = a then map_option (\<lambda>n. n\<lparr>ls := p\<rparr>) (cells st a) else cells st x)\<rparr>"
| "set_loc (rs_of a) p st = st\<lparr>cells := (\<lambda>x. if x = a then map_option (\<lambda>n. n\<lparr>rs := p\<rparr>) (cells st a) else cells st x)\<rparr>"

definition drop_cells :: "addr set \<Rightarrow> 'a state \<Rightarrow> 'a state" where
  "drop_cells A st = st\<lparr>cells := (\<lambda>x. if x \<in> A then None else cells st x)\<rparr>"

text \<open>
  The state is well formed for the queue objects in \<open>Q\<close> when the root of each leads to
  a tree without sharing, the trees of different queues share no node, and every allocated
  node lies below the next fresh address. \<open>T\<close> names the tree of each queue.
\<close>

definition wellformed :: "nat set \<Rightarrow> 'a state \<Rightarrow> (nat \<Rightarrow> (addr \<times> 'a) tree) \<Rightarrow> bool" where
  "wellformed Q st T =
    ((\<forall>q\<in>Q. tree_at (cells st) (root (objs st q)) (T q) \<and> distinct (addrs (T q))) \<and>
     (\<forall>q\<in>Q. \<forall>q'\<in>Q. q \<noteq> q' \<longrightarrow> set (addrs (T q)) \<inter> set (addrs (T q')) = {}) \<and>
     (\<forall>a. cells st a \<noteq> None \<longrightarrow> a < fresh st))"

text \<open>Size consistency: the cached count of each queue is the node count of its tree.\<close>

definition sized :: "nat set \<Rightarrow> 'a state \<Rightarrow> (nat \<Rightarrow> (addr \<times> 'a) tree) \<Rightarrow> bool" where
  "sized Q st T = (\<forall>q\<in>Q. unat (capacity (objs st q)) = size (T q))"

text \<open>
  What \<^verbatim>\<open>copy(one, ...)\<close> of a tree does to the reference \<open>one\<close>: nothing for an
  empty tree, and otherwise it stores the address of the first node allocated.
\<close>

definition written :: "loc \<Rightarrow> (addr \<times> 'a) tree \<Rightarrow> 'a state \<Rightarrow> 'a state" where
  "written one t st = (if t = Leaf then st else set_loc one (Some (fresh st)) st)"


text \<open>Heap order of every queue, for the relation in which the comparator answers yes.\<close>

definition ordered :: "'a compare \<Rightarrow> nat set \<Rightarrow> (nat \<Rightarrow> (addr \<times> 'a) tree) \<Rightarrow> bool" where
  "ordered cmp Q T = (\<forall>q\<in>Q. heap_order (holds cmp) (T q))"

text \<open>
  The requirement on the comparator that heap order rests on: it never answers yes in
  both directions. Every strict weak ordering meets it.
\<close>

definition asymmetric :: "'a compare \<Rightarrow> bool" where
  "asymmetric cmp = (\<forall>x y. cmp x y = Some True \<longrightarrow> cmp y x \<noteq> Some True)"

text \<open>
  The queue objects a call names, and those it may write to. A call is within limits when
  the counter arithmetic of the source is exact for it: a \<^verbatim>\<open>push\<close> does not wrap
  the 64-bit counter, a \<^verbatim>\<open>pop\<close> finds a count that survives the passage through
  \<^verbatim>\<open>int\<close>, and the counts of the two operands of a \<^verbatim>\<open>merge\<close> add up
  without wrapping (a queue merged into itself ends empty, whatever its count). A run is within limits when each of its calls is, in the state in
  which it is made.
\<close>

fun call_objs :: "'a call \<Rightarrow> nat set" where
  "call_objs (Push q e) = {q}"
| "call_objs (Pop q) = {q}"
| "call_objs (Merge q other) = {q, other}"
| "call_objs (Assign q other) = {q, other}"

fun targets :: "'a call \<Rightarrow> nat set" where
  "targets (Push q e) = {q}"
| "targets (Pop q) = {q}"
| "targets (Merge q other) = {q, other}"
| "targets (Assign q other) = {q}"

fun within_limits :: "'a call \<Rightarrow> 'a state \<Rightarrow> bool" where
  "within_limits (Push q e) st = (unat (capacity (objs st q)) < 2 ^ 64 - 1)"
| "within_limits (Pop q) st = (unat (capacity (objs st q)) \<le> 2 ^ 31)"
| "within_limits (Merge q other) st =
    (q = other \<or> unat (capacity (objs st q)) + unat (capacity (objs st other)) < 2 ^ 64)"
| "within_limits (Assign q other) st = True"

fun run_within_limits :: "'a compare \<Rightarrow> 'a call list \<Rightarrow> 'a state \<Rightarrow> bool" where
  "run_within_limits cmp [] st = True"
| "run_within_limits cmp (c # cs) st =
    (within_limits c st \<and>
     (case exec cmp c st of None \<Rightarrow> False | Some (r, st') \<Rightarrow> run_within_limits cmp cs st'))"


text \<open>
  Size consistency of one queue, stated on the store: the root leads to a tree without
  sharing, and the cached count is the number of its nodes.
\<close>

definition consistent :: "nat \<Rightarrow> 'a state \<Rightarrow> bool" where
  "consistent q st =
    (\<exists>t. tree_at (cells st) (root (objs st q)) t \<and> distinct (addrs t) \<and>
         unat (capacity (objs st q)) = size t)"


section \<open>Concrete stores for the examples\<close>

text \<open>Two single nodes holding 4 and 7, at the addresses 1 and 2.\<close>

definition two_nodes :: "int cells" where
  "two_nodes = [1 \<mapsto> \<lparr>val = 4, ls = None, rs = None\<rparr>, 2 \<mapsto> \<lparr>val = 7, ls = None, rs = None\<rparr>]"

definition tree4 :: "(addr \<times> int) tree" where
  "tree4 = Node Leaf (1, 4) Leaf"

definition tree7 :: "(addr \<times> int) tree" where
  "tree7 = Node Leaf (2, 7) Leaf"

text \<open>
  A queue at object 0 that holds 9, 8, 5 and 3: the root 9 at address 4 has the left child
  8 at address 2, whose right child is 3 at address 3, and the right child 5 at address 1.
  Every other queue object is empty.
\<close>

definition four_cells :: "int cells" where
  "four_cells = [1 \<mapsto> \<lparr>val = 5, ls = None, rs = None\<rparr>,
                 2 \<mapsto> \<lparr>val = 8, ls = None, rs = Some 3\<rparr>,
                 3 \<mapsto> \<lparr>val = 3, ls = None, rs = None\<rparr>,
                 4 \<mapsto> \<lparr>val = 9, ls = Some 2, rs = Some 1\<rparr>]"

definition four_heap :: "int state" where
  "four_heap = \<lparr>objs = (\<lambda>q. \<lparr>capacity = 0, root = None\<rparr>)(0 := \<lparr>capacity = 4, root = Some 4\<rparr>),
                cells = four_cells, fresh = 5\<rparr>"

definition four_tree :: "(addr \<times> int) tree" where
  "four_tree = Node (Node Leaf (2, 8) (Node Leaf (3, 3) Leaf)) (4, 9) (Node Leaf (1, 5) Leaf)"

text \<open>A comparator on integers that throws whenever one of its arguments is 3.\<close>

definition throws_on_3 :: "int compare" where
  "throws_on_3 x y = (if x = 3 \<or> y = 3 then None else Some (x < y))"

text \<open>Two queues, at the objects 0 and 1, holding 4 and 7.\<close>

definition two_heaps :: "int state" where
  "two_heaps = \<lparr>objs = (\<lambda>q. \<lparr>capacity = 0, root = None\<rparr>)
                   (0 := \<lparr>capacity = 1, root = Some 1\<rparr>, 1 := \<lparr>capacity = 1, root = Some 2\<rparr>),
                cells = two_nodes, fresh = 3\<rparr>"

definition two_trees :: "nat \<Rightarrow> (addr \<times> int) tree" where
  "two_trees = (\<lambda>q. Leaf)(0 := tree4, 1 := tree7)"

text \<open>The default comparator on integers, and a short client program on queue 0.\<close>

definition less_int :: "int compare" where
  "less_int = total (<)"

definition five_pushes_one_pop :: "int call list" where
  "five_pushes_one_pop = [Push 0 5, Push 0 3, Push 0 8, Push 0 1, Push 0 9, Pop 0]"

text \<open>
  The state after \<^verbatim>\<open>priority_queue(node, capacity)\<close> has built a queue at object 2
  from the node at address 1 of \<open>two_heaps\<close>, for a given capacity argument.
\<close>

definition built_from_node :: "64 word \<Rightarrow> int state" where
  "built_from_node c =
    \<lparr>objs = (\<lambda>q. \<lparr>capacity = 0, root = None\<rparr>)
        (0 := \<lparr>capacity = 1, root = Some 1\<rparr>, 1 := \<lparr>capacity = 1, root = Some 2\<rparr>,
         2 := \<lparr>capacity = c, root = Some 3\<rparr>),
     cells = two_nodes(3 \<mapsto> \<lparr>val = 4, ls = None, rs = None\<rparr>), fresh = 4\<rparr>"

text \<open>
  \<open>four_heap\<close> with raw memory at object 2 in which no queue has been constructed yet:
  the bytes of its root field happen to hold the address 4.
\<close>

definition stale_memory :: "int state" where
  "stale_memory = four_heap\<lparr>objs := (objs four_heap)(2 := \<lparr>capacity = 77, root = Some 4\<rparr>)\<rparr>"

text \<open>The state after \<^verbatim>\<open>pop\<close> on the queue at object 2 of \<open>built_from_node\<close>.\<close>

definition popped :: "64 word \<Rightarrow> int state" where
  "popped c =
    \<lparr>objs = (\<lambda>q. \<lparr>capacity = 0, root = None\<rparr>)
        (0 := \<lparr>capacity = 1, root = Some 1\<rparr>, 1 := \<lparr>capacity = 1, root = Some 2\<rparr>,
         2 := \<lparr>capacity = c, root = None\<rparr>),
     cells = two_nodes, fresh = 4\<rparr>"

text \<open>
  The state after the copy constructor has run on the raw memory at object 2 of
  \<open>stale_memory\<close>, with the empty queue at object 1 as its source.
\<close>

definition stale_copy :: "int state" where
  "stale_copy = four_heap\<lparr>objs := (objs four_heap)(2 := \<lparr>capacity = 0, root = Some 4\<rparr>)\<rparr>"

text \<open>The state after a \<^verbatim>\<open>push\<close> of 1 on the queue at object 2 of \<open>stale_copy\<close>.\<close>

definition stale_pushed :: "int state" where
  "stale_pushed =
    \<lparr>objs = (objs four_heap)(2 := \<lparr>capacity = 1, root = Some 4\<rparr>),
     cells = four_cells(5 \<mapsto> \<lparr>val = 1, ls = None, rs = None\<rparr>,
                        1 \<mapsto> \<lparr>val = 5, ls = Some 5, rs = None\<rparr>,
                        4 \<mapsto> \<lparr>val = 9, ls = Some 1, rs = Some 2\<rparr>),
     fresh = 6\<rparr>"

section \<open>Facts about trees and the merge of the specification\<close>

lemma Merge_spec_Leaf2 [simp]: "Merge_spec lt a Leaf = a"
  by (cases a) simp_all

lemma mset_tree_Merge_spec: "mset_tree (Merge_spec lt a b) = mset_tree a + mset_tree b"
  by (induction lt a b rule: Merge_spec.induct) (auto simp: ac_simps)

lemma set_tree_Merge_spec: "set_tree (Merge_spec lt a b) = set_tree a \<union> set_tree b"
  by (induction lt a b rule: Merge_spec.induct) auto

lemma size_Merge_spec: "size (Merge_spec lt a b) = size a + size b"
  by (induction lt a b rule: Merge_spec.induct) auto

lemma map_tree_Merge_spec:
  "map_tree f (Merge_spec (\<lambda>x y. lt (f x) (f y)) a b) = Merge_spec lt (map_tree f a) (map_tree f b)"
  by (induction "\<lambda>x y. lt (f x) (f y)" a b rule: Merge_spec.induct) auto

lemma holds_total: "holds (total lt) = (\<lambda>x y. lt (snd x) (snd y))"
  by (simp add: holds_def total_def fun_eq_iff)

lemma addrs_simps [simp]:
  "addrs Leaf = []"
  "addrs (Node l (a, v) r) = a # addrs l @ addrs r"
  by (simp_all add: addrs_def)

lemma set_addrs: "set (addrs t) = fst ` set_tree t"
  by (simp add: addrs_def)

lemma length_addrs [simp]: "length (addrs t) = size t"
  by (simp add: addrs_def)

lemma mset_addrs_Merge_spec:
  "mset (addrs (Merge_spec lt a b)) = mset (addrs a) + mset (addrs b)"
proof -
  have "mset (addrs t) = image_mset fst (mset_tree t)" for t :: "(addr \<times> 'a) tree"
    by (induction t) (auto simp: addrs_def)
  then show ?thesis by (simp add: mset_tree_Merge_spec)
qed

lemma set_addrs_Merge_spec:
  "set (addrs (Merge_spec lt a b)) = set (addrs a) \<union> set (addrs b)"
  by (simp add: set_addrs set_tree_Merge_spec image_Un)

lemma distinct_addrs_Merge_spec:
  "distinct (addrs (Merge_spec lt a b)) = distinct (addrs a @ addrs b)"
proof -
  have "distinct (addrs (Merge_spec lt a b)) = distinct (addrs a @ addrs b)"
    by (rule mset_eq_imp_distinct_iff) (simp add: mset_addrs_Merge_spec)
  then show ?thesis .
qed

lemma tree_at_cong:
  "\<forall>x \<in> set (addrs t). h' x = h x \<Longrightarrow> tree_at h' p t = tree_at h p t"
  by (induction t arbitrary: p) (auto split: option.splits)

lemma tree_at_None [simp]: "tree_at h None t = (t = Leaf)"
  by (cases t) auto

lemma tree_at_root_ptr: "tree_at h p t \<Longrightarrow> p = root_ptr t"
  by (cases t) auto

lemma tree_at_unique: "tree_at h p t \<Longrightarrow> tree_at h p t' \<Longrightarrow> t = t'"
proof (induction t arbitrary: p t')
  case Leaf
  then show ?case by simp
next
  case (Node l x r)
  obtain a v where x: "x = (a, v)" by (cases x)
  from Node.prems(1) x obtain n where n: "p = Some a" "h a = Some n" "val n = v"
      "tree_at h (ls n) l" "tree_at h (rs n) r"
    by (auto split: option.splits)
  from Node.prems(2) n(1) obtain l' x' r' where t': "t' = Node l' x' r'"
    by (cases t') auto
  obtain a' v' where x': "x' = (a', v')" by (cases x')
  from Node.prems(2) t' x' n have "a' = a" "v' = v" "tree_at h (ls n) l'" "tree_at h (rs n) r'"
    by auto
  with Node.IH(1)[OF n(4)] Node.IH(2)[OF n(5)] t' x x' show ?case by simp
qed

lemma tree_at_live: "tree_at h p t \<Longrightarrow> x \<in> set (addrs t) \<Longrightarrow> h x \<noteq> None"
  by (induction t arbitrary: p) (auto split: option.splits)

section \<open>MergeNode on trees\<close>

lemma MergeNode_errors_aux:
  assumes "MergeNode cmp a b h = Some r"
  shows "(fst r = Inl compare_failed \<longrightarrow> snd r = h \<and> (\<exists>x y. cmp x y = None)) \<and>
         fst r \<noteq> Inl container_is_empty"
proof (rule MergeNode.raw_induct[where P = "\<lambda>cmp a b h r.
    (fst r = Inl compare_failed \<longrightarrow> snd r = h \<and> (\<exists>x y. cmp x y = None)) \<and>
    fst r \<noteq> Inl container_is_empty", OF _ assms], goal_cases)
  case (1 M cmp a b h r)
  show ?case
  proof (cases a)
    case None
    with 1(2) show ?thesis by auto
  next
    case a: (Some pa)
    show ?thesis
    proof (cases b)
      case None
      with 1(2) a show ?thesis by auto
    next
      case b: (Some pb)
      show ?thesis
      proof (cases "h pa")
        case None
        with 1(2) a b show ?thesis by auto
      next
        case na: (Some na)
        show ?thesis
        proof (cases "h pb")
          case None
          with 1(2) a b na show ?thesis by auto
        next
          case nb: (Some nb)
          show ?thesis
          proof (cases "cmp (val na) (val nb)")
            case None
            with 1(2) a b na nb show ?thesis by auto
          next
            case (Some lt)
            let ?x = "if lt then pb else pa"
            let ?y = "if lt then pa else pb"
            let ?nx = "if lt then nb else na"
            from 1(2) a b na nb Some obtain r1 h1 where
              rec: "M cmp (rs ?nx) (Some ?y) h = Some (r1, h1)" and
              r: "(case r1 of Inl e \<Rightarrow> Some (Inl e, h1)
                   | Inr m \<Rightarrow> (case h1 ?x of None \<Rightarrow> Some (Inl invalid_access, h1)
                       | Some n1 \<Rightarrow> Some (Inr (Some ?x), h1(?x \<mapsto> n1\<lparr>ls := m, rs := ls n1\<rparr>)))) = Some r"
              by (auto simp: Let_def bind_eq_Some_conv)
            from 1(1)[OF rec] have ih:
              "r1 = Inl compare_failed \<longrightarrow> h1 = h \<and> (\<exists>x y. cmp x y = None)"
              "r1 \<noteq> Inl container_is_empty"
              by auto
            show ?thesis
            proof (cases r1)
              case (Inl e)
              with r ih show ?thesis by auto
            next
              case (Inr m)
              with r show ?thesis by (auto split: option.splits)
            qed
          qed
        qed
      qed
    qed
  qed
qed

lemma MergeNode_throw_unchanged:
  "MergeNode cmp a b h = Some (Inl compare_failed, h') \<Longrightarrow> h' = h"
  using MergeNode_errors_aux[of cmp a b h "(Inl compare_failed, h')"] by simp

lemma MergeNode_total_no_throw:
  "MergeNode (total lt) a b h \<noteq> Some (Inl compare_failed, h')"
  using MergeNode_errors_aux[of "total lt" a b h "(Inl compare_failed, h')"]
  by (auto simp: total_def)

lemma MergeNode_error_cases:
  "MergeNode cmp a b h = Some (Inl e, h') \<Longrightarrow> e = compare_failed \<or> e = invalid_access"
  using MergeNode_errors_aux[of cmp a b h "(Inl e, h')"] by (cases e) auto

lemma MergeNode_tree:
  assumes "tree_at h a A" "tree_at h b B" "distinct (addrs A @ addrs B)"
  shows "MergeNode cmp a b h = Some (Inl compare_failed, h) \<or>
         (\<exists>h'. MergeNode cmp a b h = Some (Inr (root_ptr (Merge_spec (holds cmp) A B)), h') \<and>
               tree_at h' (root_ptr (Merge_spec (holds cmp) A B)) (Merge_spec (holds cmp) A B) \<and>
               (\<forall>x. x \<notin> set (addrs A) \<union> set (addrs B) \<longrightarrow> h' x = h x) \<and> dom h' = dom h)"
  using assms
proof (induction "holds cmp" A B arbitrary: a b h rule: Merge_spec.induct)
  case (1 b)
  then show ?case by (auto simp add: MergeNode.simps dest: tree_at_root_ptr)
next
  case (2 l1 x r1)
  then show ?case by (cases x) (auto simp add: MergeNode.simps split: option.splits)
next
  case (3 l1 x r1 l2 y r2)
  obtain pa vx where x: "x = (pa, vx)" by (cases x)
  obtain pb vy where y: "y = (pb, vy)" by (cases y)
  from 3(3) x obtain na where a: "a = Some pa" and na: "h pa = Some na" "val na = vx"
      "tree_at h (ls na) l1" "tree_at h (rs na) r1"
    by (auto split: option.splits)
  from 3(4) y obtain nb where b: "b = Some pb" and nb: "h pb = Some nb" "val nb = vy"
      "tree_at h (ls nb) l2" "tree_at h (rs nb) r2"
    by (auto split: option.splits)
  show ?case
  proof (cases "cmp vx vy")
    case None
    then show ?thesis using a b na nb by (simp add: MergeNode.simps)
  next
    case (Some lt)
    show ?thesis
    proof (cases lt)
      case True
      then have lt: "holds cmp x y" using Some x y by (simp add: holds_def)
      let ?M = "Merge_spec (holds cmp) r2 (Node l1 x r1)"
      have d: "distinct (addrs r2 @ addrs (Node l1 x r1))"
        using 3(5) x y by auto
      from "3.hyps"(1)[OF lt nb(4) 3(3) d]
      show ?thesis
      proof
        assume "MergeNode cmp (rs nb) a h = Some (Inl compare_failed, h)"
        then show ?thesis using a b na nb Some True by (simp add: MergeNode.simps)
      next
        assume "\<exists>h'. MergeNode cmp (rs nb) a h = Some (Inr (root_ptr ?M), h') \<and>
               tree_at h' (root_ptr ?M) ?M \<and>
               (\<forall>z. z \<notin> set (addrs r2) \<union> set (addrs (Node l1 x r1)) \<longrightarrow> h' z = h z) \<and> dom h' = dom h"
        then obtain h' where h': "MergeNode cmp (rs nb) a h = Some (Inr (root_ptr ?M), h')"
          "tree_at h' (root_ptr ?M) ?M"
          "\<forall>z. z \<notin> set (addrs r2) \<union> set (addrs (Node l1 x r1)) \<longrightarrow> h' z = h z" "dom h' = dom h"
          by blast
        have pb_notin: "pb \<notin> set (addrs r2) \<union> set (addrs (Node l1 x r1))"
          using 3(5) x y by auto
        then have h'pb: "h' pb = Some nb" using h'(3) nb(1) by simp
        let ?h2 = "h'(pb \<mapsto> nb\<lparr>ls := root_ptr ?M, rs := ls nb\<rparr>)"
        have run: "MergeNode cmp a b h = Some (Inr (Some pb), ?h2)"
          using a b na nb Some True h'(1) h'pb by (simp add: MergeNode.simps)
        have sM: "set (addrs ?M) = set (addrs r2) \<union> set (addrs (Node l1 x r1))"
          by (simp add: set_addrs set_tree_Merge_spec image_Un)
        have t1: "tree_at ?h2 (root_ptr ?M) ?M"
          using h'(2) pb_notin sM by (subst tree_at_cong[where h = h']) auto
        have "tree_at ?h2 (ls nb) l2 = tree_at h (ls nb) l2"
          using 3(5) x y h'(3) by (intro tree_at_cong) auto
        then have t2: "tree_at ?h2 (ls nb) l2" using nb by simp
        have M: "Merge_spec (holds cmp) (Node l1 x r1) (Node l2 y r2) = Node ?M y l2"
          using lt by simp
        have "tree_at ?h2 (Some pb) (Node ?M y l2)"
          using t1 t2 nb(2) y by simp
        moreover have "\<forall>z. z \<notin> set (addrs (Node l1 x r1)) \<union> set (addrs (Node l2 y r2)) \<longrightarrow> ?h2 z = h z"
          using h'(3) x y by auto
        moreover have "dom ?h2 = dom h" using h'(4) nb(1) by auto
        ultimately show ?thesis using run M y by auto
      qed
    next
      case False
      then have lt: "\<not> holds cmp x y" using Some x y by (simp add: holds_def)
      let ?M = "Merge_spec (holds cmp) r1 (Node l2 y r2)"
      have d: "distinct (addrs r1 @ addrs (Node l2 y r2))"
        using 3(5) x y by auto
      from "3.hyps"(2)[OF lt na(4) 3(4) d]
      show ?thesis
      proof
        assume "MergeNode cmp (rs na) b h = Some (Inl compare_failed, h)"
        then show ?thesis using a b na nb Some False by (simp add: MergeNode.simps)
      next
        assume "\<exists>h'. MergeNode cmp (rs na) b h = Some (Inr (root_ptr ?M), h') \<and>
               tree_at h' (root_ptr ?M) ?M \<and>
               (\<forall>z. z \<notin> set (addrs r1) \<union> set (addrs (Node l2 y r2)) \<longrightarrow> h' z = h z) \<and> dom h' = dom h"
        then obtain h' where h': "MergeNode cmp (rs na) b h = Some (Inr (root_ptr ?M), h')"
          "tree_at h' (root_ptr ?M) ?M"
          "\<forall>z. z \<notin> set (addrs r1) \<union> set (addrs (Node l2 y r2)) \<longrightarrow> h' z = h z" "dom h' = dom h"
          by blast
        have pa_notin: "pa \<notin> set (addrs r1) \<union> set (addrs (Node l2 y r2))"
          using 3(5) x y by auto
        then have h'pa: "h' pa = Some na" using h'(3) na(1) by simp
        let ?h2 = "h'(pa \<mapsto> na\<lparr>ls := root_ptr ?M, rs := ls na\<rparr>)"
        have run: "MergeNode cmp a b h = Some (Inr (Some pa), ?h2)"
          using a b na nb Some False h'(1) h'pa by (simp add: MergeNode.simps)
        have sM: "set (addrs ?M) = set (addrs r1) \<union> set (addrs (Node l2 y r2))"
          by (simp add: set_addrs set_tree_Merge_spec image_Un)
        have t1: "tree_at ?h2 (root_ptr ?M) ?M"
          using h'(2) pa_notin sM by (subst tree_at_cong[where h = h']) auto
        have "tree_at ?h2 (ls na) l1 = tree_at h (ls na) l1"
          using 3(5) x y h'(3) by (intro tree_at_cong) auto
        then have t2: "tree_at ?h2 (ls na) l1" using na by simp
        have M: "Merge_spec (holds cmp) (Node l1 x r1) (Node l2 y r2) = Node ?M x l1"
          using lt by simp
        have "tree_at ?h2 (Some pa) (Node ?M x l1)"
          using t1 t2 na(2) x by simp
        moreover have "\<forall>z. z \<notin> set (addrs (Node l1 x r1)) \<union> set (addrs (Node l2 y r2)) \<longrightarrow> ?h2 z = h z"
          using h'(3) x y by auto
        moreover have "dom ?h2 = dom h" using h'(4) na(1) by auto
        ultimately show ?thesis using run M x by auto
      qed
    qed
  qed
qed


lemma MergeNode_total_tree:
  assumes "tree_at h a A" "tree_at h b B" "distinct (addrs A @ addrs B)"
  shows "\<exists>h'. MergeNode (total lt) a b h =
              Some (Inr (root_ptr (Merge_spec (\<lambda>x y. lt (snd x) (snd y)) A B)), h') \<and>
            tree_at h' (root_ptr (Merge_spec (\<lambda>x y. lt (snd x) (snd y)) A B))
              (Merge_spec (\<lambda>x y. lt (snd x) (snd y)) A B) \<and>
            (\<forall>x. x \<notin> set (addrs A) \<union> set (addrs B) \<longrightarrow> h' x = h x) \<and> dom h' = dom h"
  using MergeNode_tree[OF assms, of "total lt"] MergeNode_total_no_throw[of lt a b h h]
  by (simp add: holds_total)

lemma MergeNode_general:
  assumes "tree_at h a A" "tree_at h b B"
  shows "\<exists>r h'. MergeNode cmp a b h = Some (r, h') \<and> r \<noteq> Inl invalid_access \<and>
           (\<forall>x. (h' x = None) = (h x = None)) \<and>
           (\<forall>x. x \<notin> set (addrs A) \<union> set (addrs B) \<longrightarrow> h' x = h x)"
  using assms
proof (induction "size A + size B" arbitrary: a b A B rule: less_induct)
  case less
  show ?case
  proof (cases A)
    case Leaf
    with less.prems show ?thesis by (simp add: MergeNode.simps)
  next
    case A: (Node l1 x r1)
    show ?thesis
    proof (cases B)
      case Leaf
      with less.prems A show ?thesis by (cases x) (auto simp: MergeNode.simps split: option.splits)
    next
      case B: (Node l2 y r2)
      obtain pa vx where x: "x = (pa, vx)" by (cases x)
      obtain pb vy where y: "y = (pb, vy)" by (cases y)
      from less.prems(1) A x obtain na where a: "a = Some pa" and na: "h pa = Some na"
          "tree_at h (rs na) r1"
        by (auto split: option.splits)
      from less.prems(2) B y obtain nb where b: "b = Some pb" and nb: "h pb = Some nb"
          "tree_at h (rs nb) r2"
        by (auto split: option.splits)
      have pa_in: "pa \<in> set (addrs A)" and pb_in: "pb \<in> set (addrs B)" using A B x y by simp_all
      show ?thesis
      proof (cases "cmp (val na) (val nb)")
        case None
        then show ?thesis using a b na nb by (simp add: MergeNode.simps)
      next
        case (Some lt)
        show ?thesis
        proof (cases lt)
          case True
          have "size r2 + size A < size A + size B" using B by simp
          from less.hyps[OF this nb(2) less.prems(1)] obtain r1' h1 where
            rec: "MergeNode cmp (rs nb) a h = Some (r1', h1)" and ok: "r1' \<noteq> Inl invalid_access"
            and dom: "\<forall>z. (h1 z = None) = (h z = None)"
            and frame: "\<forall>z. z \<notin> set (addrs r2) \<union> set (addrs A) \<longrightarrow> h1 z = h z"
            by blast
          from dom nb(1) obtain n1 where n1: "h1 pb = Some n1" by (cases "h1 pb") auto
          have sub: "set (addrs r2) \<subseteq> set (addrs B)" using B y by auto
          show ?thesis
          proof (cases r1')
            case (Inl e)
            then have "MergeNode cmp a b h = Some (Inl e, h1)"
              using a b na nb Some True rec by (simp add: MergeNode.simps)
            then show ?thesis using ok Inl dom frame sub by auto
          next
            case (Inr m)
            then have "MergeNode cmp a b h = Some (Inr (Some pb), h1(pb \<mapsto> n1\<lparr>ls := m, rs := ls n1\<rparr>))"
              using a b na nb Some True rec n1 by (simp add: MergeNode.simps)
            moreover have "\<forall>z. ((h1(pb \<mapsto> n1\<lparr>ls := m, rs := ls n1\<rparr>)) z = None) = (h z = None)"
              using dom nb(1) by auto
            moreover have "\<forall>z. z \<notin> set (addrs A) \<union> set (addrs B) \<longrightarrow>
                (h1(pb \<mapsto> n1\<lparr>ls := m, rs := ls n1\<rparr>)) z = h z"
              using frame sub pb_in by auto
            ultimately show ?thesis by blast
          qed
        next
          case False
          have "size r1 + size B < size A + size B" using A by simp
          from less.hyps[OF this na(2) less.prems(2)] obtain r1' h1 where
            rec: "MergeNode cmp (rs na) b h = Some (r1', h1)" and ok: "r1' \<noteq> Inl invalid_access"
            and dom: "\<forall>z. (h1 z = None) = (h z = None)"
            and frame: "\<forall>z. z \<notin> set (addrs r1) \<union> set (addrs B) \<longrightarrow> h1 z = h z"
            by blast
          from dom na(1) obtain n1 where n1: "h1 pa = Some n1" by (cases "h1 pa") auto
          have sub: "set (addrs r1) \<subseteq> set (addrs A)" using A x by auto
          show ?thesis
          proof (cases r1')
            case (Inl e)
            then have "MergeNode cmp a b h = Some (Inl e, h1)"
              using a b na nb Some False rec by (simp add: MergeNode.simps)
            then show ?thesis using ok Inl dom frame sub by auto
          next
            case (Inr m)
            then have "MergeNode cmp a b h = Some (Inr (Some pa), h1(pa \<mapsto> n1\<lparr>ls := m, rs := ls n1\<rparr>))"
              using a b na nb Some False rec n1 by (simp add: MergeNode.simps)
            moreover have "\<forall>z. ((h1(pa \<mapsto> n1\<lparr>ls := m, rs := ls n1\<rparr>)) z = None) = (h z = None)"
              using dom na(1) by auto
            moreover have "\<forall>z. z \<notin> set (addrs A) \<union> set (addrs B) \<longrightarrow>
                (h1(pa \<mapsto> n1\<lparr>ls := m, rs := ls n1\<rparr>)) z = h z"
              using frame sub pa_in by auto
            ultimately show ?thesis by blast
          qed
        qed
      qed
    qed
  qed
qed

lemma MergeNode_returns:
  assumes "tree_at h a A" "tree_at h b B"
  shows "\<exists>r. MergeNode cmp a b h = Some r"
  using MergeNode_general[OF assms, of cmp] by blast

lemma MergeNode_call_smaller:
  assumes "tree_at h a A" "tree_at h b B" "MergeNode_call cmp a b h = Some (a', b')"
  shows "\<exists>A' B'. tree_at h a' A' \<and> tree_at h b' B' \<and> size A' + size B' < size A + size B"
proof (cases A)
  case Leaf
  with assms show ?thesis by (simp add: MergeNode_call_def)
next
  case A: (Node l1 x r1)
  show ?thesis
  proof (cases B)
    case Leaf
    with assms show ?thesis by (simp add: MergeNode_call_def split: option.splits)
  next
    case B: (Node l2 y r2)
    obtain pa vx where x: "x = (pa, vx)" by (cases x)
    obtain pb vy where y: "y = (pb, vy)" by (cases y)
    from assms(1) A x obtain na where a: "a = Some pa" and na: "h pa = Some na"
        "tree_at h (rs na) r1"
      by (auto split: option.splits)
    from assms(2) B y obtain nb where b: "b = Some pb" and nb: "h pb = Some nb"
        "tree_at h (rs nb) r2"
      by (auto split: option.splits)
    from assms(3) a b na nb obtain lt where lt: "cmp (val na) (val nb) = Some lt"
      and call: "a' = rs (if lt then nb else na)" "b' = Some (if lt then pa else pb)"
      by (auto simp: MergeNode_call_def split: option.splits)
    show ?thesis
    proof (cases lt)
      case True
      have "tree_at h a' r2 \<and> tree_at h b' A \<and> size r2 + size A < size A + size B"
        using True call nb a assms(1) B by simp
      then show ?thesis by blast
    next
      case False
      have "tree_at h a' r1 \<and> tree_at h b' B \<and> size r1 + size B < size A + size B"
        using False call na b assms(2) A by simp
      then show ?thesis by blast
    qed
  qed
qed


text \<open>
  Claim C1. On two trees that share no node, \<^verbatim>\<open>MergeNode\<close> with a comparator that
  does not throw is the merge of the specification: a null operand returns the other
  pointer and leaves the store as it is; otherwise the pointer returned leads to the tree
  \<open>Merge_spec\<close> builds (one comparison of the two roots in the order (a, b), the second
  root on top when it holds and the first one otherwise, the other tree merged with the
  previous right subtree of the top node, the children exchanged), built from the very
  nodes of the operands, and no other node is touched. The elements of the result are the
  multiset union of the elements of the operands. The operands need not be heap-ordered.
  In the words of the claim, the root that loses the comparison is the one the comparator
  does not order first, and the tree merged into its right subtree is the other operand.
\<close>

theorem MergeNode_skew_merge:
  assumes "tree_at h a A" "tree_at h b B" "distinct (addrs A @ addrs B)"
  shows "MergeNode (total lt) None b h = Some (Inr b, h) \<and>
         MergeNode (total lt) a None h = Some (Inr a, h) \<and>
         (\<exists>h'. MergeNode (total lt) a b h =
                  Some (Inr (root_ptr (Merge_spec (\<lambda>x y. lt (snd x) (snd y)) A B)), h') \<and>
               tree_at h' (root_ptr (Merge_spec (\<lambda>x y. lt (snd x) (snd y)) A B))
                 (Merge_spec (\<lambda>x y. lt (snd x) (snd y)) A B) \<and>
               (\<forall>x. x \<notin> set (addrs A) \<union> set (addrs B) \<longrightarrow> h' x = h x)) \<and>
         elems (Merge_spec (\<lambda>x y. lt (snd x) (snd y)) A B) = Merge_spec lt (elems A) (elems B) \<and>
         mset_tree (Merge_spec (\<lambda>x y. lt (snd x) (snd y)) A B) = mset_tree A + mset_tree B \<and>
         mset_tree (Merge_spec lt (elems A) (elems B)) = mset_tree (elems A) + mset_tree (elems B)"
proof -
  have 1: "MergeNode (total lt) None b h = Some (Inr b, h)"
    by (simp add: MergeNode.simps)
  have 2: "MergeNode (total lt) a None h = Some (Inr a, h)"
    by (cases a) (simp_all add: MergeNode.simps)
  from MergeNode_total_tree[OF assms]
  have 3: "\<exists>h'. MergeNode (total lt) a b h =
                  Some (Inr (root_ptr (Merge_spec (\<lambda>x y. lt (snd x) (snd y)) A B)), h') \<and>
               tree_at h' (root_ptr (Merge_spec (\<lambda>x y. lt (snd x) (snd y)) A B))
                 (Merge_spec (\<lambda>x y. lt (snd x) (snd y)) A B) \<and>
               (\<forall>x. x \<notin> set (addrs A) \<union> set (addrs B) \<longrightarrow> h' x = h x)"
    by blast
  have 4: "elems (Merge_spec (\<lambda>x y. lt (snd x) (snd y)) A B) = Merge_spec lt (elems A) (elems B)"
    unfolding elems_def by (rule map_tree_Merge_spec)
  show ?thesis using 1 2 3 4 by (simp add: mset_tree_Merge_spec)
qed

theorem MergeNode_skew_merge_witness:
  "tree_at two_nodes (Some 1) tree4 \<and> tree_at two_nodes (Some 2) tree7 \<and>
   distinct (addrs tree4 @ addrs tree7) \<and>
   (\<exists>h'. MergeNode (total (<)) (Some 1) (Some 2) two_nodes = Some (Inr (Some 2), h') \<and>
         tree_at h' (Some 2) (Node tree4 (2, 7) Leaf))"
proof -
  have h1: "tree_at two_nodes (Some 1) tree4" by (simp add: two_nodes_def tree4_def)
  have h2: "tree_at two_nodes (Some 2) tree7" by (simp add: two_nodes_def tree7_def)
  have h3: "distinct (addrs tree4 @ addrs tree7)" by (simp add: tree4_def tree7_def)
  have m: "Merge_spec (\<lambda>x y. snd x < snd y) tree4 tree7 = Node tree4 (2, 7) Leaf"
    by (simp add: tree4_def tree7_def)
  from MergeNode_skew_merge[OF h1 h2 h3, of "(<)"] m
  have "\<exists>h'. MergeNode (total (<)) (Some 1) (Some 2) two_nodes = Some (Inr (Some 2), h') \<and>
         tree_at h' (Some 2) (Node tree4 (2, 7) Leaf)"
    by auto
  with h1 h2 h3 show ?thesis by blast
qed

text \<open>
  Claim C9. \<^verbatim>\<open>MergeNode\<close> returns on every pair of finite trees, whatever the
  comparator does (it may throw), and the pair of its recursive call has a strictly smaller
  combined node count. Sharing of nodes between the two trees does not matter here: the
  recursion reads the store before any write.
\<close>

theorem MergeNode_terminates:
  assumes "tree_at h a A" "tree_at h b B"
  shows "(\<exists>r. MergeNode cmp a b h = Some r) \<and>
         (\<forall>a' b'. MergeNode_call cmp a b h = Some (a', b') \<longrightarrow>
            (\<exists>A' B'. tree_at h a' A' \<and> tree_at h b' B' \<and> size A' + size B' < size A + size B))"
  using MergeNode_returns[OF assms] MergeNode_call_smaller[OF assms] by blast

theorem MergeNode_terminates_witness:
  "tree_at two_nodes (Some 1) tree4 \<and> tree_at two_nodes (Some 2) tree7 \<and>
   (\<exists>r. MergeNode (total (<)) (Some 1) (Some 2) two_nodes = Some r) \<and>
   MergeNode_call (total (<)) (Some 1) (Some 2) two_nodes = Some (None, Some 1) \<and>
   (\<exists>A' B'. tree_at two_nodes None A' \<and> tree_at two_nodes (Some 1) B' \<and>
      size A' + size B' < size tree4 + size tree7)"
proof -
  have h1: "tree_at two_nodes (Some 1) tree4" by (simp add: two_nodes_def tree4_def)
  have h2: "tree_at two_nodes (Some 2) tree7" by (simp add: two_nodes_def tree7_def)
  have c: "MergeNode_call (total (<)) (Some 1) (Some 2) two_nodes = Some (None, Some 1)"
    by (simp add: MergeNode_call_def two_nodes_def total_def)
  from MergeNode_terminates[OF h1 h2, of "total (<)"] c h1 h2 show ?thesis by blast
qed

section \<open>The size counter\<close>

lemma int_round_trip: 
  assumes "uint (x::64 word) < 2^31" shows "scast (ucast x :: 32 word) = x"
proof -
  have "sint (ucast x :: 32 word) = signed_take_bit (LENGTH(32) - Suc 0) (uint x)"
    by (rule signed_ucast_eq)
  also have "\<dots> = signed_take_bit 31 (uint x)" by simp
  also have "\<dots> = uint x"
  proof (rule signed_take_bit_int_eq_self)
    have "- (2 ^ 31) \<le> (0::int)" by simp
    also have "(0::int) \<le> uint x" by simp
    finally show "- (2 ^ 31) \<le> uint x" .
    show "uint x < 2 ^ 31" by (rule assms)
  qed
  finally have "sint (ucast x :: 32 word) = uint x" .
  then show ?thesis by (simp add: scast_eq)
qed

lemma pop_size: 
  assumes "c \<noteq> 0" "unat (c::64 word) \<le> 2^31"
  shows "scast (ucast (c - 1) :: 32 word) = c - 1" "unat (c - 1) = unat c - 1"
proof -
  have 1: "unat (c - 1) = unat c - 1" using assms(1)
    by (simp add: unat_minus_one)
  have "unat c \<noteq> 0" using assms(1) by (simp add: unat_eq_0)
  then have "unat (c - 1) < 2^31" using 1 assms(2) by linarith
  then have "int (unat (c - 1)) < int (2^31)" by (simp only: of_nat_less_iff)
  then have "uint (c - 1) < 2^31" by (simp only: uint_nat) simp
  then show "scast (ucast (c - 1) :: 32 word) = c - 1" by (rule int_round_trip)
  show "unat (c - 1) = unat c - 1" by (rule 1)
qed

lemma unat_succ:
  assumes "unat (c::64 word) < 2^64 - 1" shows "unat (c + 1) = Suc (unat c)"
proof -
  have "unat c + unat (1::64 word) < 2 ^ LENGTH(64)" using assms by simp
  then have "unat (c + 1) = unat c + unat (1::64 word)" by (simp only: unat_add_lem)
  then show ?thesis by simp
qed

lemma unat_plus:
  assumes "unat (c::64 word) + unat (d::64 word) < 2^64" shows "unat (c + d) = unat c + unat d"
proof -
  have "unat c + unat d < 2 ^ LENGTH(64)" using assms by simp
  then show ?thesis by (simp only: unat_add_lem)
qed

section \<open>References into the state\<close>

lemma store_eq: "store l p st = (if load l st = None then None else Some (set_loc l p st))"
  by (cases l) (auto simp: store_def load_def fun_eq_iff split: option.splits)

lemma load_root_of [simp]: "load (root_of q) st = Some (root (objs st q))"
  by (simp add: load_def)

lemma load_ls_of [simp]: "load (ls_of a) st = map_option ls (cells st a)"
  by (simp add: load_def)

lemma load_rs_of [simp]: "load (rs_of a) st = map_option rs (cells st a)"
  by (simp add: load_def)

lemma set_loc_fresh [simp]: "fresh (set_loc l p st) = fresh st"
  by (cases l) simp_all

lemma set_loc_more [simp]: "state.more (set_loc l p st) = state.more st"
  by (cases l) simp_all

lemma drop_cells_more [simp]: "state.more (drop_cells A st) = state.more st"
  by (simp add: drop_cells_def)

lemma set_loc_cells_other:
  "loc_cell l \<noteq> Some x \<Longrightarrow> cells (set_loc l p st) x = cells st x"
  by (cases l) auto

lemma set_loc_dom [simp]: "(cells (set_loc l p st) x = None) = (cells st x = None)"
  by (cases l) auto

lemma load_set_loc_same: "load l st \<noteq> None \<Longrightarrow> load l (set_loc l p st) = Some p"
  by (cases l) (auto simp: load_def)

lemma set_loc_same: "load l st = Some p \<Longrightarrow> set_loc l p st = st"
proof (cases l)
  case (root_of q)
  assume "load l st = Some p"
  with root_of have "(objs st q)\<lparr>root := p\<rparr> = objs st q" by (cases "objs st q") auto
  with root_of show ?thesis by simp
next
  case (ls_of a)
  assume "load l st = Some p"
  with ls_of obtain n where n: "cells st a = Some n" "ls n = p" by auto
  then have "n\<lparr>ls := p\<rparr> = n" by (cases n) auto
  with n have "(\<lambda>x. if x = a then map_option (\<lambda>n. n\<lparr>ls := p\<rparr>) (cells st a) else cells st x) = cells st"
    by (auto simp: fun_eq_iff)
  with ls_of show ?thesis by simp
next
  case (rs_of a)
  assume "load l st = Some p"
  with rs_of obtain n where n: "cells st a = Some n" "rs n = p" by auto
  then have "n\<lparr>rs := p\<rparr> = n" by (cases n) auto
  with n have "(\<lambda>x. if x = a then map_option (\<lambda>n. n\<lparr>rs := p\<rparr>) (cells st a) else cells st x) = cells st"
    by (auto simp: fun_eq_iff)
  with rs_of show ?thesis by simp
qed

lemma drop_cells_empty [simp]: "drop_cells {} st = st"
  by (simp add: drop_cells_def)

lemma drop_cells_simps [simp]:
  "cells (drop_cells A st) x = (if x \<in> A then None else cells st x)"
  "objs (drop_cells A st) = objs st"
  "fresh (drop_cells A st) = fresh st"
  by (simp_all add: drop_cells_def)

lemma load_frame:
  assumes "objs st' = objs st" "\<forall>c. loc_cell l = Some c \<longrightarrow> cells st' c = cells st c"
  shows "load l st' = load l st"
  using assms by (cases l) (auto simp: load_def)

lemma ClearNode_tree:
  assumes "load now st = Some p" "tree_at (cells st) p t" "distinct (addrs t)"
    "\<forall>c. loc_cell now = Some c \<longrightarrow> c \<notin> set (addrs t)"
  shows "ClearNode now st = Some (Inr (), set_loc now None (drop_cells (set (addrs t)) st))"
  using assms
proof (induction t arbitrary: now st p)
  case Leaf
  then have "p = None" by simp
  with Leaf show ?case by (simp add: ClearNode.simps set_loc_same)
next
  case (Node l x r)
  obtain a v where x: "x = (a, v)" by (cases x)
  from Node.prems(2) x obtain n where p: "p = Some a" and n: "cells st a = Some n" "val n = v"
      "tree_at (cells st) (ls n) l" "tree_at (cells st) (rs n) r"
    by (auto split: option.splits)
  from Node.prems(3) x have d: "distinct (addrs l)" "distinct (addrs r)" "a \<notin> set (addrs l)"
      "a \<notin> set (addrs r)" "set (addrs l) \<inter> set (addrs r) = {}"
    by auto
  from Node.prems(4) x have nowc: "loc_cell now \<noteq> Some a"
      "\<forall>c. loc_cell now = Some c \<longrightarrow> c \<notin> set (addrs l) \<and> c \<notin> set (addrs r)"
    by auto
  define st1 where "st1 = set_loc (ls_of a) None (drop_cells (set (addrs l)) st)"
  have c1: "ClearNode (ls_of a) st = Some (Inr (), st1)"
    unfolding st1_def using n d by (intro Node.IH(1)[where p = "ls n"]) auto
  have cells1: "cells st1 y = (if y \<in> set (addrs l) then None else if y = a then Some (n\<lparr>ls := None\<rparr>) else cells st y)" for y
    using n d by (auto simp: st1_def)
  have objs1: "objs st1 = objs st" by (simp add: st1_def)
  have load1: "load now st1 = Some (Some a)"
    using Node.prems(1) p nowc by (cases now) (auto simp: objs1 cells1)
  define st2 where "st2 = set_loc (rs_of a) None (drop_cells (set (addrs r)) st1)"
  have t2: "tree_at (cells st1) (rs n) r"
    using n(4) d by (subst tree_at_cong[where h = "cells st"]) (auto simp: cells1)
  have l2: "load (rs_of a) st1 = Some (rs n)" using d by (simp add: cells1)
  have c2: "ClearNode (rs_of a) st1 = Some (Inr (), st2)"
    unfolding st2_def using d by (intro Node.IH(2)[OF l2 t2]) auto
  have cells2: "cells st2 y = (if y \<in> set (addrs l) \<union> set (addrs r) then None
      else if y = a then Some (n\<lparr>ls := None, rs := None\<rparr>) else cells st y)" for y
    using d by (auto simp: st2_def cells1)
  have objs2: "objs st2 = objs st" by (simp add: st2_def objs1)
  have fresh2: "fresh st2 = fresh st" by (simp add: st2_def st1_def)
  have load2: "load now st2 = Some (Some a)"
    using Node.prems(1) p nowc by (cases now) (auto simp: objs2 cells2)
  let ?st3 = "st2\<lparr>cells := (cells st2)(a := None)\<rparr>"
  have load3: "load now ?st3 \<noteq> None"
    using Node.prems(1) p nowc by (cases now) (auto simp: objs2 cells2)
  have "?st3 = drop_cells (set (addrs (Node l x r))) st"
  proof (rule state.equality)
    show "cells ?st3 = cells (drop_cells (set (addrs (Node l x r))) st)"
      using x by (auto simp: fun_eq_iff cells2)
    show "objs ?st3 = objs (drop_cells (set (addrs (Node l x r))) st)"
      by (simp add: objs2)
    show "fresh ?st3 = fresh (drop_cells (set (addrs (Node l x r))) st)"
      by (simp add: fresh2)
    show "state.more ?st3 = state.more (drop_cells (set (addrs (Node l x r))) st)"
      by (simp add: st2_def st1_def)
  qed
  then have final: "set_loc now None ?st3 = set_loc now None (drop_cells (set (addrs (Node l x r))) st)"
    by simp
  have "ClearNode now st = Some (Inr (), set_loc now None ?st3)"
    using Node.prems(1) p c1 load1 c2 load2 load3 d
    by (subst ClearNode.simps) (simp add: cells2 store_eq)
  with final show ?case by simp
qed


section \<open>The trees that copy builds\<close>

lemma size_relabel [simp]: "size (relabel k t) = size t"
  by (induction k t rule: relabel.induct) auto

lemma upt_split3: "[k ..< Suc (k + m + n)] = k # [Suc k ..< Suc k + m] @ [Suc k + m ..< Suc k + m + n]"
proof -
  have "k < Suc (k + m + n)" by simp
  then have "[k ..< Suc (k + m + n)] = k # [Suc k ..< Suc (k + m + n)]"
    by (rule upt_conv_Cons)
  then have "[k ..< Suc (k + m + n)] = k # [Suc k ..< Suc k + m + n]"
    by simp
  also have "[Suc k ..< Suc k + m + n] = [Suc k ..< Suc k + m] @ [Suc k + m ..< Suc k + m + n]"
    by (rule upt_add_eq_append) simp
  finally show ?thesis .
qed

lemma addrs_relabel: "addrs (relabel k t) = [k ..< k + size t]"
proof (induction k t rule: relabel.induct)
  case (1 k)
  show ?case by simp
next
  case (2 k l a v r)
  have "addrs (relabel k (Node l (a, v) r)) = k # [Suc k ..< Suc k + size l] @ [Suc k + size l ..< Suc k + size l + size r]"
    using 2 by simp
  also have "\<dots> = [k ..< Suc (k + size l + size r)]" by (rule upt_split3[symmetric])
  also have "Suc (k + size l + size r) = k + size (Node l (a, v) r)" by simp
  finally show ?case .
qed

lemma elems_relabel [simp]: "elems (relabel k t) = elems t"
  by (induction k t rule: relabel.induct) (auto simp: elems_def)

lemma root_ptr_relabel: "root_ptr (relabel k t) = (if t = Leaf then None else Some k)"
  by (induction k t rule: relabel.induct) auto

lemma written_simps [simp]:
  "fresh (written one t st) = fresh st"
  "state.more (written one t st) = state.more st"
  "written one Leaf st = st"
  "objs (written (ls_of a) t st) = objs st"
  "objs (written (rs_of a) t st) = objs st"
  by (simp_all add: written_def)

lemma written_cells_other:
  "loc_cell one \<noteq> Some y \<Longrightarrow> cells (written one t st) y = cells st y"
  by (simp add: written_def set_loc_cells_other)

lemma written_cells_ls:
  "cells st a = Some n \<Longrightarrow> ls n = None \<Longrightarrow>
   cells (written (ls_of a) t st) a = Some (n\<lparr>ls := root_ptr (relabel (fresh st) t)\<rparr>)"
  by (cases n) (auto simp: written_def root_ptr_relabel)

lemma written_cells_rs:
  "cells st a = Some n \<Longrightarrow> rs n = None \<Longrightarrow>
   cells (written (rs_of a) t st) a = Some (n\<lparr>rs := root_ptr (relabel (fresh st) t)\<rparr>)"
  by (cases n) (auto simp: written_def root_ptr_relabel)

lemma set_loc_live: "(cells (set_loc l p st) x \<noteq> None) = (cells st x \<noteq> None)"
  by (cases l) auto

lemma copy_tree:
  assumes "tree_at (cells st) p t" "\<forall>a. cells st a \<noteq> None \<longrightarrow> a < fresh st"
    "load one st \<noteq> None" "\<forall>c. loc_cell one = Some c \<longrightarrow> c \<notin> set (addrs t)"
  shows "\<exists>st'. copy one p st = Some (Inr (), st') \<and> fresh st' = fresh st + size t \<and>
       objs st' = objs (written one t st) \<and>
       (\<forall>x < fresh st. cells st' x = cells (written one t st) x) \<and>
       tree_at (cells st') (root_ptr (relabel (fresh st) t)) (relabel (fresh st) t) \<and>
       (\<forall>x. cells st' x \<noteq> None \<longrightarrow> x < fresh st') \<and> state.more st' = state.more st"
  using assms
proof (induction t arbitrary: one p st)
  case Leaf
  then have "p = None" by simp
  then have "copy one p st = Some (Inr (), st)" by (subst copy.simps) simp
  then show ?case using Leaf.prems(2) by simp
next
  case (Node l x r)
  obtain b v where x: "x = (b, v)" by (cases x)
  from Node.prems(1) x obtain nb where p: "p = Some b" and nb: "cells st b = Some nb" "val nb = v"
      "tree_at (cells st) (ls nb) l" "tree_at (cells st) (rs nb) r"
    by (auto split: option.splits)
  define a where "a = fresh st"
  define st1 where "st1 = st\<lparr>cells := (cells st)(a \<mapsto> \<lparr>val = val nb, ls = None, rs = None\<rparr>), fresh := Suc a\<rparr>"
  define st2 where "st2 = set_loc one (Some a) st1"
  have live: "cells st y \<noteq> None \<Longrightarrow> y < a" for y
    using Node.prems(2) by (simp add: a_def)
  have bl: "b < a" using live[of b] nb by simp
  have below_l: "y \<in> set (addrs l) \<Longrightarrow> y < a" for y
    using live[of y] tree_at_live[OF nb(3), of y] by blast
  have below_r: "y \<in> set (addrs r) \<Longrightarrow> y < a" for y
    using live[of y] tree_at_live[OF nb(4), of y] by blast
  have onec: "loc_cell one = Some c \<Longrightarrow> c < a \<and> c \<noteq> b \<and> c \<notin> set (addrs l) \<and> c \<notin> set (addrs r)" for c
    using Node.prems(3,4) x live[of c] by (cases one) auto
  have one_a: "loc_cell one \<noteq> Some a" using onec[of a] by auto
  have load1: "load one st1 \<noteq> None"
    using Node.prems(3) one_a by (cases one) (auto simp: st1_def)
  then have store1: "store one (Some a) st1 = Some st2" by (simp add: store_eq st2_def)
  have load2: "load one st2 = Some (Some a)"
    using load1 by (simp add: st2_def load_set_loc_same)
  have cells2_a: "cells st2 a = Some \<lparr>val = v, ls = None, rs = None\<rparr>"
    using one_a nb(2) by (simp add: st2_def set_loc_cells_other) (simp add: st1_def)
  have cells2_old: "y \<noteq> a \<Longrightarrow> cells st2 y = cells (set_loc one (Some a) st) y" for y
    by (cases one) (auto simp: st2_def st1_def)
  have cells2_src: "y \<in> set (addrs l) \<union> set (addrs r) \<union> {b} \<Longrightarrow> cells st2 y = cells st y" for y
  proof -
    assume y: "y \<in> set (addrs l) \<union> set (addrs r) \<union> {b}"
    then have "y \<noteq> a" using below_l[of y] below_r[of y] bl by auto
    moreover have "loc_cell one \<noteq> Some y" using onec[of y] y by auto
    ultimately show ?thesis by (simp add: cells2_old set_loc_cells_other)
  qed
  have objs2: "objs st2 = objs (set_loc one (Some a) st)"
    by (cases one) (auto simp: st2_def st1_def)
  have fresh2: "fresh st2 = Suc a" by (simp add: st2_def st1_def)
  have more2: "state.more st2 = state.more st" by (simp add: st2_def st1_def)
  have alloc2: "\<forall>y. cells st2 y \<noteq> None \<longrightarrow> y < fresh st2"
  proof (intro allI impI)
    fix y assume *: "cells st2 y \<noteq> None"
    show "y < fresh st2"
    proof (cases "y = a")
      case True
      then show ?thesis by (simp add: fresh2)
    next
      case False
      with * have "cells st y \<noteq> None" by (simp add: cells2_old set_loc_live)
      then show ?thesis using live[of y] by (simp add: fresh2)
    qed
  qed
  have b2: "cells st2 b = Some nb" using cells2_src[of b] nb by simp
  have tl2: "tree_at (cells st2) (ls nb) l"
  proof -
    have "\<forall>y \<in> set (addrs l). cells st2 y = cells st y"
      using cells2_src by simp
    from tree_at_cong[OF this] show ?thesis using nb(3) by simp
  qed
  have la2: "load (ls_of a) st2 \<noteq> None" by (simp add: cells2_a)
  have lc2: "\<forall>c. loc_cell (ls_of a) = Some c \<longrightarrow> c \<notin> set (addrs l)"
    using below_l[of a] by auto
  from Node.IH(1)[OF tl2 alloc2 la2 lc2]
  obtain st3 where c3: "copy (ls_of a) (ls nb) st2 = Some (Inr (), st3)"
    and fresh3: "fresh st3 = Suc a + size l"
    and objs3: "objs st3 = objs st2"
    and cells3: "\<forall>x < Suc a. cells st3 x = cells (written (ls_of a) l st2) x"
    and t3: "tree_at (cells st3) (root_ptr (relabel (Suc a) l)) (relabel (Suc a) l)"
    and alloc3: "\<forall>x. cells st3 x \<noteq> None \<longrightarrow> x < fresh st3"
    and more3: "state.more st3 = state.more st2"
    unfolding fresh2 by (elim exE conjE) simp
  have cells3_a: "cells st3 a = Some \<lparr>val = v, ls = root_ptr (relabel (Suc a) l), rs = None\<rparr>"
    using cells3 written_cells_ls[OF cells2_a, of l] by (simp add: fresh2)
  have cells3_old: "y < a \<Longrightarrow> cells st3 y = cells st2 y" for y
    using cells3 by (simp add: written_cells_other)
  have load3: "load one st3 = Some (Some a)"
  proof -
    have "load one st3 = load one st2"
      using onec by (intro load_frame) (auto simp: objs3 cells3_old)
    then show ?thesis using load2 by simp
  qed
  have b3: "cells st3 b = Some nb" using cells3_old[of b] bl b2 by simp
  have tr3: "tree_at (cells st3) (rs nb) r"
  proof -
    have "\<forall>y \<in> set (addrs r). cells st3 y = cells st y"
      using cells2_src cells3_old below_r by simp
    from tree_at_cong[OF this] show ?thesis using nb(4) by simp
  qed
  have la3: "load (rs_of a) st3 \<noteq> None" by (simp add: cells3_a)
  have lc3: "\<forall>c. loc_cell (rs_of a) = Some c \<longrightarrow> c \<notin> set (addrs r)"
    using below_r[of a] by auto
  from Node.IH(2)[OF tr3 alloc3 la3 lc3]
  obtain st4 where c4: "copy (rs_of a) (rs nb) st3 = Some (Inr (), st4)"
    and fresh4: "fresh st4 = Suc a + size l + size r"
    and objs4: "objs st4 = objs st3"
    and cells4: "\<forall>x < Suc a + size l. cells st4 x = cells (written (rs_of a) r st3) x"
    and t4: "tree_at (cells st4) (root_ptr (relabel (Suc a + size l) r)) (relabel (Suc a + size l) r)"
    and alloc4: "\<forall>x. cells st4 x \<noteq> None \<longrightarrow> x < fresh st4"
    and more4: "state.more st4 = state.more st3"
    unfolding fresh3 by (elim exE conjE) simp
  have cells4_a: "cells st4 a = Some \<lparr>val = v, ls = root_ptr (relabel (Suc a) l), rs = root_ptr (relabel (Suc a + size l) r)\<rparr>"
    using cells4 written_cells_rs[OF cells3_a, of r] by (simp add: fresh3)
  have cells4_other: "y < Suc a + size l \<Longrightarrow> y \<noteq> a \<Longrightarrow> cells st4 y = cells st3 y" for y
    using cells4 by (simp add: written_cells_other)
  have run: "copy one p st = Some (Inr (), st4)"
    apply (subst copy.simps)
    apply (simp only: p nb(1) option.case Let_def a_def[symmetric] st1_def[symmetric] store1 load2 b2 c3)
    apply (simp only: Option.bind.simps prod.case sum.case load3 b3 c4 option.case)
    done
  have tl4: "tree_at (cells st4) (root_ptr (relabel (Suc a) l)) (relabel (Suc a) l)"
  proof -
    have "\<forall>y \<in> set (addrs (relabel (Suc a) l)). cells st4 y = cells st3 y"
    proof
      fix y assume "y \<in> set (addrs (relabel (Suc a) l))"
      then have "y < Suc a + size l" "y \<noteq> a" by (auto simp: addrs_relabel)
      then show "cells st4 y = cells st3 y" by (rule cells4_other)
    qed
    from tree_at_cong[OF this] show ?thesis using t3 by simp
  qed
  have tree: "tree_at (cells st4) (root_ptr (relabel a (Node l x r))) (relabel a (Node l x r))"
    using x cells4_a tl4 t4 by simp
  have w: "written one (Node l x r) st = set_loc one (Some a) st"
    by (simp add: written_def a_def)
  have old: "\<forall>y < fresh st. cells st4 y = cells (written one (Node l x r) st) y"
  proof (intro allI impI)
    fix y assume "y < fresh st"
    then have y: "y < a" by (simp add: a_def)
    then have "cells st4 y = cells st3 y" by (intro cells4_other) auto
    also have "\<dots> = cells st2 y" using y by (rule cells3_old)
    also have "\<dots> = cells (set_loc one (Some a) st) y" using y by (intro cells2_old) auto
    finally show "cells st4 y = cells (written one (Node l x r) st) y" by (simp only: w)
  qed
  have ob: "objs st4 = objs (written one (Node l x r) st)"
    by (simp only: objs4 objs3 objs2 w)
  have fr: "fresh st4 = fresh st + size (Node l x r)"
    by (simp add: fresh4 a_def)
  have mo: "state.more st4 = state.more st" by (simp only: more4 more3 more2)
  have tree': "tree_at (cells st4) (root_ptr (relabel (fresh st) (Node l x r))) (relabel (fresh st) (Node l x r))"
    using tree by (simp only: a_def)
  show ?case
    by (intro exI[of _ st4] conjI run fr ob old tree' alloc4 mo)
qed

section \<open>Heap order\<close>

lemma dominated_Merge_spec:
  "\<not> dominated lt x a \<Longrightarrow> \<not> dominated lt x b \<Longrightarrow> \<not> dominated lt x (Merge_spec lt a b)"
  by (cases a; cases b) auto

lemma heap_order_Merge_spec:
  "\<forall>x y. lt x y \<longrightarrow> \<not> lt y x \<Longrightarrow> heap_order lt a \<Longrightarrow> heap_order lt b \<Longrightarrow>
   heap_order lt (Merge_spec lt a b)"
proof (induction lt a b rule: Merge_spec.induct)
  case (1 lt b)
  then show ?case by simp
next
  case (2 lt l1 x r1)
  then show ?case by simp
next
  case (3 lt l1 x r1 l2 y r2)
  show ?case
  proof (cases "lt x y")
    case True
    then have nyx: "\<not> lt y x" using "3.prems"(1) by blast
    have "heap_order lt (Merge_spec lt r2 (Node l1 x r1))"
      using True "3.IH"(1) "3.prems" by simp
    moreover have "\<not> dominated lt y (Merge_spec lt r2 (Node l1 x r1))"
      using nyx "3.prems"(3) by (intro dominated_Merge_spec) auto
    ultimately show ?thesis using True "3.prems"(3) by simp
  next
    case False
    have "heap_order lt (Merge_spec lt r1 (Node l2 y r2))"
      using False "3.IH"(2) "3.prems" by simp
    moreover have "\<not> dominated lt x (Merge_spec lt r1 (Node l2 y r2))"
      using False "3.prems"(2) by (intro dominated_Merge_spec) auto
    ultimately show ?thesis using False "3.prems"(2) by simp
  qed
qed

lemma dominated_map_tree:
  "dominated (\<lambda>x y. lt (f x) (f y)) x t = dominated lt (f x) (map_tree f t)"
  by (cases t) auto

lemma heap_order_map_tree:
  "heap_order (\<lambda>x y. lt (f x) (f y)) t = heap_order lt (map_tree f t)"
  by (induction t) (auto simp: dominated_map_tree)

lemma heap_order_holds:
  "heap_order (holds cmp) t = heap_order (\<lambda>x y. cmp x y = Some True) (elems t)"
  unfolding elems_def holds_def by (rule heap_order_map_tree)

lemma heap_order_relabel: "heap_order (holds cmp) (relabel k t) = heap_order (holds cmp) t"
  by (simp add: heap_order_holds elems_relabel)

lemma heap_order_bound:
  fixes t :: "('a::linorder) tree"
  shows "heap_order (<) t \<Longrightarrow> \<not> dominated (<) x t \<Longrightarrow> y \<in> set_tree t \<Longrightarrow> y \<le> x"
proof (induction t arbitrary: x)
  case Leaf
  then show ?case by simp
next
  case (Node l z r)
  from Node.prems(2) have zx: "z \<le> x" by simp
  from Node.prems(3) consider "y = z" | "y \<in> set_tree l" | "y \<in> set_tree r" by auto
  then show ?case
  proof cases
    case 1
    then show ?thesis using zx by simp
  next
    case 2
    have "y \<le> z" using Node.IH(1)[of z] Node.prems(1) 2 by simp
    then show ?thesis using zx by simp
  next
    case 3
    have "y \<le> z" using Node.IH(2)[of z] Node.prems(1) 3 by simp
    then show ?thesis using zx by simp
  qed
qed

lemma heap_order_root_max:
  fixes l :: "('a::linorder) tree"
  shows "heap_order (<) (Node l x r) \<Longrightarrow> y \<in> set_tree (Node l x r) \<Longrightarrow> y \<le> x"
  using heap_order_bound[of "Node l x r" x y] by simp

section \<open>One call on a well-formed state\<close>

lemma dom_eq_None: "dom f = dom g \<Longrightarrow> (f x = None) = (g x = None)"
  by (metis domIff)

lemma pq_update_all [simp]:
  "(r::priority_queue)\<lparr>capacity := c, root := p\<rparr> = \<lparr>capacity = c, root = p\<rparr>"
  "(r::priority_queue)\<lparr>root := p, capacity := c\<rparr> = \<lparr>capacity = c, root = p\<rparr>"
  by (cases r; simp)+

lemma wf_tree: "wellformed Q st T \<Longrightarrow> q \<in> Q \<Longrightarrow> tree_at (cells st) (root (objs st q)) (T q)"
  by (simp add: wellformed_def)

lemma wf_distinct: "wellformed Q st T \<Longrightarrow> q \<in> Q \<Longrightarrow> distinct (addrs (T q))"
  by (simp add: wellformed_def)

lemma wf_disjoint:
  "wellformed Q st T \<Longrightarrow> q \<in> Q \<Longrightarrow> q' \<in> Q \<Longrightarrow> q \<noteq> q' \<Longrightarrow> set (addrs (T q)) \<inter> set (addrs (T q')) = {}"
  by (simp add: wellformed_def)

lemma wf_alloc: "wellformed Q st T \<Longrightarrow> cells st a \<noteq> None \<Longrightarrow> a < fresh st"
  by (simp add: wellformed_def)

lemma wf_below: "wellformed Q st T \<Longrightarrow> q \<in> Q \<Longrightarrow> x \<in> set (addrs (T q)) \<Longrightarrow> x < fresh st"
  using tree_at_live[OF wf_tree, of Q st T q x] wf_alloc[of Q st T x] by blast

lemma wf_fresh_free: "wellformed Q st T \<Longrightarrow> cells st (fresh st) = None"
  using wf_alloc[of Q st T "fresh st"] by (cases "cells st (fresh st)") auto

text \<open>
  A new well-formed state: the tree of \<open>q\<close> is replaced by \<open>M\<close>, whose nodes are among
  those of the old tree of \<open>q\<close> and a set \<open>A\<close> of nodes that belong to no other queue;
  the store changes on these nodes only.
\<close>

lemma wf_update:
  assumes wf: "wellformed Q st T" and q: "q \<in> Q"
    and tree: "tree_at (cells st') (root (objs st' q)) M" and dist: "distinct (addrs M)"
    and sub: "set (addrs M) \<subseteq> set (addrs (T q)) \<union> A"
    and A: "\<forall>q'\<in>Q. q' \<noteq> q \<longrightarrow> set (addrs (T q')) \<inter> A = {}"
    and frame: "\<forall>x. x \<notin> set (addrs (T q)) \<union> A \<longrightarrow> cells st' x = cells st x"
    and objs: "\<forall>q'. q' \<noteq> q \<longrightarrow> objs st' q' = objs st q'"
    and alloc: "\<forall>x. cells st' x \<noteq> None \<longrightarrow> x < fresh st'"
  shows "wellformed Q st' (T(q := M))"
  unfolding wellformed_def
proof (intro conjI ballI allI impI)
  fix q' assume q': "q' \<in> Q"
  show "tree_at (cells st') (root (objs st' q')) ((T(q := M)) q')"
  proof (cases "q' = q")
    case True
    then show ?thesis using tree by simp
  next
    case False
    have "\<forall>x\<in>set (addrs (T q')). cells st' x = cells st x"
      using frame wf_disjoint[OF wf q q'] A q' False by auto
    then have "tree_at (cells st') (root (objs st q')) (T q') = tree_at (cells st) (root (objs st q')) (T q')"
      by (rule tree_at_cong)
    then show ?thesis
      using False objs wf_tree[OF wf q'] by simp
  qed
  show "distinct (addrs ((T(q := M)) q'))"
    using dist wf_distinct[OF wf q'] by simp
next
  fix q1 q2 assume "q1 \<in> Q" "q2 \<in> Q" "q1 \<noteq> q2"
  then show "set (addrs ((T(q := M)) q1)) \<inter> set (addrs ((T(q := M)) q2)) = {}"
    using sub A wf_disjoint[OF wf, of q1 q2] wf_disjoint[OF wf q, of q1] wf_disjoint[OF wf q, of q2]
    by (auto simp: disjoint_iff)
next
  fix a assume "cells st' a \<noteq> None"
  then show "a < fresh st'"
    using alloc by simp
qed

lemma push_step:
  assumes wf: "wellformed Q st T" and q: "q \<in> Q"
  shows "(push cmp e q st = Some (Inr (), st\<lparr>fresh := Suc (fresh st)\<rparr>) \<and> (\<exists>x y. cmp x y = None)) \<or>
         (\<exists>st'. push cmp e q st = Some (Inr (), st') \<and>
            wellformed Q st' (T(q := Merge_spec (holds cmp) (T q) (Node Leaf (fresh st, e) Leaf))) \<and>
            objs st' = (objs st)(q := \<lparr>capacity = capacity (objs st q) + 1,
               root = root_ptr (Merge_spec (holds cmp) (T q) (Node Leaf (fresh st, e) Leaf))\<rparr>) \<and>
            fresh st' = Suc (fresh st))"
proof -
  let ?a = "fresh st"
  let ?N = "Node Leaf (?a, e) Leaf"
  let ?M = "Merge_spec (holds cmp) (T q) ?N"
  let ?h1 = "(cells st)(?a \<mapsto> \<lparr>val = e, ls = None, rs = None\<rparr>)"
  have a_free: "cells st ?a = None" by (rule wf_fresh_free[OF wf])
  have a_notin: "?a \<notin> set (addrs (T q))" using wf_below[OF wf q, of ?a] by auto
  have t1: "tree_at ?h1 (root (objs st q)) (T q)"
  proof -
    have "tree_at ?h1 (root (objs st q)) (T q) = tree_at (cells st) (root (objs st q)) (T q)"
      by (rule tree_at_cong) (use a_notin in auto)
    then show ?thesis using wf_tree[OF wf q] by simp
  qed
  have t2: "tree_at ?h1 (Some ?a) ?N" by simp
  have d: "distinct (addrs (T q) @ addrs ?N)" using wf_distinct[OF wf q] a_notin by simp
  from MergeNode_tree[OF t1 t2 d, of cmp] show ?thesis
  proof
    assume thrown: "MergeNode cmp (root (objs st q)) (Some ?a) ?h1 = Some (Inl compare_failed, ?h1)"
    have "?h1(?a := None) = cells st" using a_free by (auto simp: fun_eq_iff)
    then have "push cmp e q st = Some (Inr (), st\<lparr>fresh := Suc ?a\<rparr>)"
      using thrown by (simp add: push_def Let_def)
    moreover have "\<exists>x y. cmp x y = None"
      using MergeNode_errors_aux[OF thrown] by simp
    ultimately show ?thesis by blast
  next
    assume "\<exists>h'. MergeNode cmp (root (objs st q)) (Some ?a) ?h1 = Some (Inr (root_ptr ?M), h') \<and>
               tree_at h' (root_ptr ?M) ?M \<and>
               (\<forall>x. x \<notin> set (addrs (T q)) \<union> set (addrs ?N) \<longrightarrow> h' x = ?h1 x) \<and> dom h' = dom ?h1"
    then obtain h' where run: "MergeNode cmp (root (objs st q)) (Some ?a) ?h1 = Some (Inr (root_ptr ?M), h')"
      and tM: "tree_at h' (root_ptr ?M) ?M"
      and frame: "\<forall>x. x \<notin> set (addrs (T q)) \<union> set (addrs ?N) \<longrightarrow> h' x = ?h1 x"
      and dom: "dom h' = dom ?h1"
      by blast
    let ?objs' = "(objs st)(q := \<lparr>capacity = capacity (objs st q) + 1, root = root_ptr ?M\<rparr>)"
    let ?st' = "st\<lparr>cells := h', objs := ?objs', fresh := Suc ?a\<rparr>"
    have p: "push cmp e q st = Some (Inr (), ?st')"
      using run by (simp add: push_def Let_def)
    have alloc: "\<forall>x. h' x \<noteq> None \<longrightarrow> x < Suc ?a"
    proof (intro allI impI)
      fix x assume "h' x \<noteq> None"
      then have "x \<in> dom ?h1" using dom by auto
      then have "x = ?a \<or> cells st x \<noteq> None" by (auto split: if_splits)
      then show "x < Suc ?a" using wf_alloc[OF wf, of x] by auto
    qed
    have "wellformed Q ?st' (T(q := ?M))"
    proof (rule wf_update[OF wf q, where A = "{?a}"])
      show "tree_at (cells ?st') (root (objs ?st' q)) ?M" using tM by simp
      show "distinct (addrs ?M)" using d by (simp add: distinct_addrs_Merge_spec)
      show "set (addrs ?M) \<subseteq> set (addrs (T q)) \<union> {?a}" by (simp add: set_addrs_Merge_spec)
      show "\<forall>q'\<in>Q. q' \<noteq> q \<longrightarrow> set (addrs (T q')) \<inter> {?a} = {}"
        using wf_below[OF wf, of _ ?a] by auto
      show "\<forall>x. x \<notin> set (addrs (T q)) \<union> {?a} \<longrightarrow> cells ?st' x = cells st x"
        using frame by auto
      show "\<forall>q'. q' \<noteq> q \<longrightarrow> objs ?st' q' = objs st q'" by simp
      show "\<forall>x. cells ?st' x \<noteq> None \<longrightarrow> x < fresh ?st'" using alloc by simp
    qed
    then show ?thesis using p by auto
  qed
qed


lemma pop_step:
  assumes wf: "wellformed Q st T" and q: "q \<in> Q" and T: "T q = Node l (pb, v) r"
    and ne: "capacity (objs st q) \<noteq> 0"
  shows "(pop cmp q st = Some (Inr (), st) \<and> (\<exists>x y. cmp x y = None)) \<or>
         (\<exists>st'. pop cmp q st = Some (Inr (), st') \<and>
            wellformed Q st' (T(q := Merge_spec (holds cmp) l r)) \<and>
            objs st' = (objs st)(q := \<lparr>capacity = scast (ucast (capacity (objs st q) - 1) :: 32 word),
               root = root_ptr (Merge_spec (holds cmp) l r)\<rparr>) \<and>
            fresh st' = fresh st \<and> cells st' pb = None \<and>
            (\<forall>x. x \<noteq> pb \<longrightarrow> (cells st' x = None) = (cells st x = None)) \<and>
            (\<forall>x. x \<notin> set (addrs (T q)) \<longrightarrow> cells st' x = cells st x) \<and>
            (\<exists>nb h. cells st pb = Some nb \<and>
               MergeNode cmp (ls nb) (rs nb) (cells st) = Some (Inr (root (objs st' q)), h) \<and>
               cells st' = h(pb := None)))"
proof -
  let ?M = "Merge_spec (holds cmp) l r"
  from wf_tree[OF wf q] T obtain nb where root: "root (objs st q) = Some pb"
    and nb: "cells st pb = Some nb" "tree_at (cells st) (ls nb) l" "tree_at (cells st) (rs nb) r"
    by (auto split: option.splits)
  from wf_distinct[OF wf q] T have d: "distinct (addrs l @ addrs r)"
    and pb: "pb \<notin> set (addrs l) \<union> set (addrs r)" by auto
  have e: "\<not> empty_pq q st" using ne by (simp add: empty_pq_def)
  from MergeNode_tree[OF nb(2) nb(3) d, of cmp] show ?thesis
  proof
    assume thrown: "MergeNode cmp (ls nb) (rs nb) (cells st) = Some (Inl compare_failed, cells st)"
    then have "pop cmp q st = Some (Inr (), st)"
      using e root nb(1) by (simp add: pop_def Let_def)
    moreover have "\<exists>x y. cmp x y = None"
      using MergeNode_errors_aux[OF thrown] by simp
    ultimately show ?thesis by blast
  next
    assume "\<exists>h'. MergeNode cmp (ls nb) (rs nb) (cells st) = Some (Inr (root_ptr ?M), h') \<and>
               tree_at h' (root_ptr ?M) ?M \<and>
               (\<forall>x. x \<notin> set (addrs l) \<union> set (addrs r) \<longrightarrow> h' x = cells st x) \<and> dom h' = dom (cells st)"
    then obtain h' where run: "MergeNode cmp (ls nb) (rs nb) (cells st) = Some (Inr (root_ptr ?M), h')"
      and tM: "tree_at h' (root_ptr ?M) ?M"
      and frame: "\<forall>x. x \<notin> set (addrs l) \<union> set (addrs r) \<longrightarrow> h' x = cells st x"
      and dom: "dom h' = dom (cells st)"
      by blast
    let ?objs' = "(objs st)(q := \<lparr>capacity = scast (ucast (capacity (objs st q) - 1) :: 32 word), root = root_ptr ?M\<rparr>)"
    let ?st' = "st\<lparr>cells := h'(pb := None), objs := ?objs'\<rparr>"
    have h'pb: "h' pb = Some nb" using frame pb nb(1) by simp
    have p: "pop cmp q st = Some (Inr (), ?st')"
      using e root nb(1) run h'pb by (simp add: pop_def Let_def)
    have sM: "set (addrs ?M) = set (addrs l) \<union> set (addrs r)" by (rule set_addrs_Merge_spec)
    have live: "(h' x = None) = (cells st x = None)" for x
      using dom by (rule dom_eq_None)
    have "wellformed Q ?st' (T(q := ?M))"
    proof (rule wf_update[OF wf q, where A = "{}"])
      have "tree_at (h'(pb := None)) (root_ptr ?M) ?M = tree_at h' (root_ptr ?M) ?M"
        by (rule tree_at_cong) (use pb sM in auto)
      then show "tree_at (cells ?st') (root (objs ?st' q)) ?M" using tM by simp
      show "distinct (addrs ?M)" using d by (simp add: distinct_addrs_Merge_spec)
      show "set (addrs ?M) \<subseteq> set (addrs (T q)) \<union> {}" using sM T by auto
      show "\<forall>q'\<in>Q. q' \<noteq> q \<longrightarrow> set (addrs (T q')) \<inter> {} = {}" by simp
      show "\<forall>x. x \<notin> set (addrs (T q)) \<union> {} \<longrightarrow> cells ?st' x = cells st x"
        using frame T by auto
      show "\<forall>q'. q' \<noteq> q \<longrightarrow> objs ?st' q' = objs st q'" by simp
      show "\<forall>x. cells ?st' x \<noteq> None \<longrightarrow> x < fresh ?st'"
      proof (intro allI impI)
        fix x assume "cells ?st' x \<noteq> None"
        then have "h' x \<noteq> None" by (simp split: if_splits)
        then have "cells st x \<noteq> None" using live[of x] by simp
        then show "x < fresh ?st'" using wf_alloc[OF wf] by simp
      qed
    qed
    moreover have "\<forall>x. x \<noteq> pb \<longrightarrow> (cells ?st' x = None) = (cells st x = None)"
      using live by simp
    moreover have "\<forall>x. x \<notin> set (addrs (T q)) \<longrightarrow> cells ?st' x = cells st x"
      using frame T by auto
    moreover have "\<exists>nb h. cells st pb = Some nb \<and>
               MergeNode cmp (ls nb) (rs nb) (cells st) = Some (Inr (root (objs ?st' q)), h) \<and>
               cells ?st' = h(pb := None)"
      using nb(1) run by simp
    ultimately show ?thesis using p by auto
  qed
qed

lemma merge_step:
  assumes wf: "wellformed Q st T" and q: "q \<in> Q" and o: "other \<in> Q" and ne: "q \<noteq> other"
  shows "(merge cmp q other st = Some (Inr (), st) \<and> (\<exists>x y. cmp x y = None)) \<or>
         (\<exists>st'. merge cmp q other st = Some (Inr (), st') \<and>
            wellformed Q st' (T(other := Leaf, q := Merge_spec (holds cmp) (T q) (T other))) \<and>
            objs st' = (objs st)(q := \<lparr>capacity = capacity (objs st q) + capacity (objs st other),
                 root = root_ptr (Merge_spec (holds cmp) (T q) (T other))\<rparr>,
               other := \<lparr>capacity = 0, root = None\<rparr>) \<and>
            fresh st' = fresh st \<and>
            MergeNode cmp (root (objs st q)) (root (objs st other)) (cells st) =
              Some (Inr (root (objs st' q)), cells st') \<and>
            (\<forall>x. (cells st' x = None) = (cells st x = None)))"
proof -
  let ?M = "Merge_spec (holds cmp) (T q) (T other)"
  have d: "distinct (addrs (T q) @ addrs (T other))"
    using wf_distinct[OF wf q] wf_distinct[OF wf o] wf_disjoint[OF wf q o ne] by simp
  from MergeNode_tree[OF wf_tree[OF wf q] wf_tree[OF wf o] d, of cmp] show ?thesis
  proof
    assume thrown: "MergeNode cmp (root (objs st q)) (root (objs st other)) (cells st) =
      Some (Inl compare_failed, cells st)"
    then have "merge cmp q other st = Some (Inr (), st)"
      by (simp add: merge_def)
    moreover have "\<exists>x y. cmp x y = None"
      using MergeNode_errors_aux[OF thrown] by simp
    ultimately show ?thesis by blast
  next
    assume "\<exists>h'. MergeNode cmp (root (objs st q)) (root (objs st other)) (cells st) =
                 Some (Inr (root_ptr ?M), h') \<and>
               tree_at h' (root_ptr ?M) ?M \<and>
               (\<forall>x. x \<notin> set (addrs (T q)) \<union> set (addrs (T other)) \<longrightarrow> h' x = cells st x) \<and>
               dom h' = dom (cells st)"
    then obtain h' where run: "MergeNode cmp (root (objs st q)) (root (objs st other)) (cells st) =
                 Some (Inr (root_ptr ?M), h')"
      and tM: "tree_at h' (root_ptr ?M) ?M"
      and frame: "\<forall>x. x \<notin> set (addrs (T q)) \<union> set (addrs (T other)) \<longrightarrow> h' x = cells st x"
      and dom: "dom h' = dom (cells st)"
      by blast
    let ?objs' = "(objs st)(q := \<lparr>capacity = capacity (objs st q) + capacity (objs st other),
                 root = root_ptr ?M\<rparr>, other := \<lparr>capacity = 0, root = None\<rparr>)"
    let ?st' = "st\<lparr>cells := h', objs := ?objs'\<rparr>"
    have "merge cmp q other st = Some (Inr (), st\<lparr>cells := h', objs := ?objs'\<rparr>)"
      using run ne by (simp add: merge_def Let_def fun_upd_twist)
    then have m: "merge cmp q other st = Some (Inr (), ?st')" .
    have live: "(h' x = None) = (cells st x = None)" for x
      using dom by (rule dom_eq_None)
    let ?sta = "st\<lparr>objs := (objs st)(other := \<lparr>capacity = 0, root = None\<rparr>)\<rparr>"
    have wfa: "wellformed Q ?sta (T(other := Leaf))"
    proof (rule wf_update[OF wf o, where A = "{}"])
      show "tree_at (cells ?sta) (root (objs ?sta other)) Leaf" by simp
      show "\<forall>x. cells ?sta x \<noteq> None \<longrightarrow> x < fresh ?sta" using wf_alloc[OF wf] by simp
    qed simp_all
    have "wellformed Q ?st' ((T(other := Leaf))(q := ?M))"
    proof (rule wf_update[OF wfa q, where A = "set (addrs (T other))"])
      show "tree_at (cells ?st') (root (objs ?st' q)) ?M" using tM ne by simp
      show "distinct (addrs ?M)" using d by (simp add: distinct_addrs_Merge_spec)
      show "set (addrs ?M) \<subseteq> set (addrs ((T(other := Leaf)) q)) \<union> set (addrs (T other))"
        using ne by (simp add: set_addrs_Merge_spec)
      show "\<forall>q'\<in>Q. q' \<noteq> q \<longrightarrow> set (addrs ((T(other := Leaf)) q')) \<inter> set (addrs (T other)) = {}"
        using wf_disjoint[OF wf _ o] by auto
      show "\<forall>x. x \<notin> set (addrs ((T(other := Leaf)) q)) \<union> set (addrs (T other)) \<longrightarrow> cells ?st' x = cells ?sta x"
        using frame ne by simp
      show "\<forall>q'. q' \<noteq> q \<longrightarrow> objs ?st' q' = objs ?sta q'" by simp
      show "\<forall>x. cells ?st' x \<noteq> None \<longrightarrow> x < fresh ?st'"
        using wf_alloc[OF wf] live by simp
    qed
    moreover have "MergeNode cmp (root (objs st q)) (root (objs st other)) (cells st) =
              Some (Inr (root (objs ?st' q)), cells ?st')"
      using run ne by simp
    ultimately show ?thesis using m live by auto
  qed
qed


lemma merge_self_step:
  assumes wf: "wellformed Q st T" and q: "q \<in> Q"
  shows "(merge cmp q q st = Some (Inr (), st) \<and> (\<exists>x y. cmp x y = None)) \<or>
         (\<exists>st'. merge cmp q q st = Some (Inr (), st') \<and> wellformed Q st' (T(q := Leaf)) \<and>
            objs st' = (objs st)(q := \<lparr>capacity = 0, root = None\<rparr>) \<and> fresh st' = fresh st)"
proof -
  from MergeNode_general[OF wf_tree[OF wf q] wf_tree[OF wf q], of cmp]
  obtain r h' where run: "MergeNode cmp (root (objs st q)) (root (objs st q)) (cells st) = Some (r, h')"
    and ok: "r \<noteq> Inl invalid_access"
    and dom: "\<forall>x. (h' x = None) = (cells st x = None)"
    and frame: "\<forall>x. x \<notin> set (addrs (T q)) \<union> set (addrs (T q)) \<longrightarrow> h' x = cells st x"
    by blast
  show ?thesis
  proof (cases r)
    case (Inl e)
    with ok MergeNode_error_cases[of cmp _ _ _ e h'] run have e: "e = compare_failed" by auto
    with Inl run have h': "h' = cells st" by (auto dest: MergeNode_throw_unchanged)
    have "merge cmp q q st = Some (Inr (), st)"
      using run Inl e h' by (simp add: merge_def)
    moreover have "\<exists>x y. cmp x y = None"
      using MergeNode_errors_aux[OF run] Inl e by simp
    ultimately show ?thesis by blast
  next
    case (Inr p)
    let ?st' = "st\<lparr>cells := h', objs := (objs st)(q := \<lparr>capacity = 0, root = None\<rparr>)\<rparr>"
    have m: "merge cmp q q st = Some (Inr (), ?st')"
      using run Inr by (simp add: merge_def Let_def)
    have "wellformed Q ?st' (T(q := Leaf))"
    proof (rule wf_update[OF wf q, where A = "{}"])
      show "tree_at (cells ?st') (root (objs ?st' q)) Leaf" by simp
      show "\<forall>x. x \<notin> set (addrs (T q)) \<union> {} \<longrightarrow> cells ?st' x = cells st x" using frame by simp
      show "\<forall>x. cells ?st' x \<noteq> None \<longrightarrow> x < fresh ?st'" using dom wf_alloc[OF wf] by simp
    qed simp_all
    then show ?thesis using m by auto
  qed
qed

lemma assign_step:
  assumes wf: "wellformed Q st T" and q: "q \<in> Q" and o: "other \<in> Q" and ne: "q \<noteq> other"
  shows "\<exists>st'. assign q other st = Some (Inr (), st') \<and>
            wellformed Q st' (T(q := relabel (fresh st) (T other))) \<and>
            objs st' = (objs st)(q := \<lparr>capacity = capacity (objs st other),
                 root = root_ptr (relabel (fresh st) (T other))\<rparr>) \<and>
            fresh st' = fresh st + size (T other) \<and>
            (\<forall>x. x \<notin> set (addrs (T q)) \<longrightarrow> x < fresh st \<longrightarrow> cells st' x = cells st x) \<and>
            (\<forall>x \<in> set (addrs (T q)). cells st' x = None)"
proof -
  let ?R = "relabel (fresh st) (T other)"
  define st1 where "st1 = set_loc (root_of q) None (drop_cells (set (addrs (T q))) st)"
  have c1: "ClearNode (root_of q) st = Some (Inr (), st1)"
    unfolding st1_def
    by (rule ClearNode_tree[OF _ wf_tree[OF wf q] wf_distinct[OF wf q]]) simp_all
  have cells1: "cells st1 x = (if x \<in> set (addrs (T q)) then None else cells st x)" for x
    by (simp add: st1_def)
  have objs1: "objs st1 = (objs st)(q := (objs st q)\<lparr>root := None\<rparr>)"
    by (simp add: st1_def)
  have fresh1: "fresh st1 = fresh st" by (simp add: st1_def)
  have t1: "tree_at (cells st1) (root (objs st1 other)) (T other)"
  proof -
    have "tree_at (cells st1) (root (objs st other)) (T other) =
          tree_at (cells st) (root (objs st other)) (T other)"
      by (rule tree_at_cong) (use wf_disjoint[OF wf q o ne] in \<open>auto simp: cells1\<close>)
    then show ?thesis using wf_tree[OF wf o] ne by (simp add: objs1)
  qed
  have alloc1: "\<forall>a. cells st1 a \<noteq> None \<longrightarrow> a < fresh st1"
    using wf_alloc[OF wf] by (auto simp: cells1 fresh1 split: if_splits)
  from copy_tree[OF t1 alloc1, of "root_of q"]
  obtain st2 where c2: "copy (root_of q) (root (objs st1 other)) st1 = Some (Inr (), st2)"
    and fresh2: "fresh st2 = fresh st + size (T other)"
    and objs2: "objs st2 = objs (written (root_of q) (T other) st1)"
    and cells2: "\<forall>x < fresh st. cells st2 x = cells (written (root_of q) (T other) st1) x"
    and t2: "tree_at (cells st2) (root_ptr ?R) ?R"
    and alloc2: "\<forall>x. cells st2 x \<noteq> None \<longrightarrow> x < fresh st2"
    unfolding fresh1 by auto
  have root2: "objs st2 = (objs st)(q := (objs st q)\<lparr>root := root_ptr ?R\<rparr>)"
    by (cases "T other = Leaf") (auto simp: objs2 written_def objs1 root_ptr_relabel fresh1)
  have cells2': "x < fresh st \<Longrightarrow> cells st2 x = cells st1 x" for x
    using cells2 by (simp add: written_cells_other)
  let ?st' = "st2\<lparr>objs := (objs st2)(q := (objs st2 q)\<lparr>capacity := capacity (objs st2 other)\<rparr>)\<rparr>"
  have a: "assign q other st = Some (Inr (), ?st')"
    using ne c1 c2 by (simp add: assign_def)
  have objs': "objs ?st' = (objs st)(q := \<lparr>capacity = capacity (objs st other), root = root_ptr ?R\<rparr>)"
    using ne by (simp add: root2)
  have "wellformed Q ?st' (T(q := ?R))"
  proof (rule wf_update[OF wf q, where A = "set (addrs ?R)"])
    show "tree_at (cells ?st') (root (objs ?st' q)) ?R" using t2 by (simp add: root2)
    show "distinct (addrs ?R)" by (simp add: addrs_relabel)
    show "set (addrs ?R) \<subseteq> set (addrs (T q)) \<union> set (addrs ?R)" by simp
    show "\<forall>q'\<in>Q. q' \<noteq> q \<longrightarrow> set (addrs (T q')) \<inter> set (addrs ?R) = {}"
      using wf_below[OF wf] by (fastforce simp: addrs_relabel)
    show "\<forall>x. x \<notin> set (addrs (T q)) \<union> set (addrs ?R) \<longrightarrow> cells ?st' x = cells st x"
    proof (intro allI impI)
      fix x assume x: "x \<notin> set (addrs (T q)) \<union> set (addrs ?R)"
      show "cells ?st' x = cells st x"
      proof (cases "x < fresh st")
        case True
        then show ?thesis using x by (simp add: cells2' cells1)
      next
        case False
        then have "\<not> x < fresh st2" using x by (simp add: addrs_relabel fresh2)
        then have "cells st2 x = None" using alloc2 by blast
        moreover have "cells st x = None" using False wf_alloc[OF wf, of x] by blast
        ultimately show ?thesis by simp
      qed
    qed
    show "\<forall>q'. q' \<noteq> q \<longrightarrow> objs ?st' q' = objs st q'" by (simp add: root2)
    show "\<forall>x. cells ?st' x \<noteq> None \<longrightarrow> x < fresh ?st'" using alloc2 by simp
  qed
  moreover have "\<forall>x. x \<notin> set (addrs (T q)) \<longrightarrow> x < fresh st \<longrightarrow> cells ?st' x = cells st x"
    by (simp add: cells2' cells1)
  moreover have "\<forall>x \<in> set (addrs (T q)). cells ?st' x = None"
    using wf_below[OF wf q] by (simp add: cells2' cells1)
  ultimately show ?thesis using a objs' fresh2 by auto
qed

section \<open>Runs preserve the invariants\<close>

lemma asymmetric_holds: "asymmetric cmp \<Longrightarrow> \<forall>x y. holds cmp x y \<longrightarrow> \<not> holds cmp y x"
  by (auto simp: asymmetric_def holds_def)

lemma wellformed_fresh:
  assumes "wellformed Q st T" "fresh st \<le> k"
  shows "wellformed Q (st\<lparr>fresh := k\<rparr>) T"
proof -
  have "\<forall>a. cells st a \<noteq> None \<longrightarrow> a < k"
    using wf_alloc[OF assms(1)] assms(2) by (meson less_le_trans)
  then show ?thesis using assms(1) by (simp add: wellformed_def)
qed

lemma sized_nonempty:
  assumes "sized Q st T" "q \<in> Q" "capacity (objs st q) \<noteq> 0"
  shows "\<exists>l pb v r. T q = Node l (pb, v) r"
proof (cases "T q")
  case Leaf
  then have "unat (capacity (objs st q)) = 0" using assms(1,2) by (simp add: sized_def)
  then have "capacity (objs st q) = 0" by (simp only: unat_eq_0)
  with assms(3) show ?thesis by simp
next
  case (Node l x r)
  then show ?thesis by (cases x) auto
qed

lemma exec_push:
  assumes wf: "wellformed Q st T" and sz: "sized Q st T" and ord: "oa \<longrightarrow> ordered cmp Q T"
    and asym: "oa \<longrightarrow> asymmetric cmp" and objs: "call_objs c \<subseteq> Q" and lim: "within_limits c st"
    and Push: "c = Push q e"
  shows "\<exists>r st' T'. exec cmp c st = Some (r, st') \<and> r \<noteq> Inl invalid_access \<and>
           wellformed Q st' T' \<and> sized Q st' T' \<and> (oa \<longrightarrow> ordered cmp Q T') \<and>
           (\<forall>q. q \<notin> targets c \<longrightarrow> T' q = T q \<and> objs st' q = objs st q)"
proof -
  from objs Push have q: "q \<in> Q" by simp
  let ?M = "Merge_spec (holds cmp) (T q) (Node Leaf (fresh st, e) Leaf)"
  from push_step[OF wf q, of cmp e] show ?thesis
  proof
    assume "push cmp e q st = Some (Inr (), st\<lparr>fresh := Suc (fresh st)\<rparr>) \<and> (\<exists>x y. cmp x y = None)"
    then have p: "exec cmp c st = Some (Inr (), st\<lparr>fresh := Suc (fresh st)\<rparr>)"
      using Push by simp
    have "wellformed Q (st\<lparr>fresh := Suc (fresh st)\<rparr>) T" using wf by (rule wellformed_fresh) simp
    moreover have "sized Q (st\<lparr>fresh := Suc (fresh st)\<rparr>) T" using sz by (simp add: sized_def)
    ultimately show ?thesis using p ord by (intro exI[of _ "Inr ()"] exI[of _ "st\<lparr>fresh := Suc (fresh st)\<rparr>"] exI[of _ T]) simp
  next
    assume "\<exists>st'. push cmp e q st = Some (Inr (), st') \<and> wellformed Q st' (T(q := ?M)) \<and>
            objs st' = (objs st)(q := \<lparr>capacity = capacity (objs st q) + 1, root = root_ptr ?M\<rparr>) \<and>
            fresh st' = Suc (fresh st)"
    then obtain st' where p: "push cmp e q st = Some (Inr (), st')"
      and wf': "wellformed Q st' (T(q := ?M))"
      and o': "objs st' = (objs st)(q := \<lparr>capacity = capacity (objs st q) + 1, root = root_ptr ?M\<rparr>)"
      by blast
    have "unat (capacity (objs st q) + 1) = Suc (unat (capacity (objs st q)))"
      using lim Push by (intro unat_succ) simp
    then have sz': "sized Q st' (T(q := ?M))"
      using sz q by (auto simp: sized_def o' size_Merge_spec)
    have ord': "oa \<longrightarrow> ordered cmp Q (T(q := ?M))"
    proof
      assume oa
      with ord asym have o: "ordered cmp Q T" and a: "asymmetric cmp" by simp_all
      have "heap_order (holds cmp) ?M"
        using o q by (intro heap_order_Merge_spec asymmetric_holds[OF a]) (auto simp: ordered_def)
      then show "ordered cmp Q (T(q := ?M))" using o by (simp add: ordered_def)
    qed
    show ?thesis using p wf' sz' ord' o' Push
      by (intro exI[of _ "Inr ()"] exI[of _ st'] exI[of _ "T(q := ?M)"]) simp
  qed
qed

lemma exec_pop:
  assumes wf: "wellformed Q st T" and sz: "sized Q st T" and ord: "oa \<longrightarrow> ordered cmp Q T"
    and asym: "oa \<longrightarrow> asymmetric cmp" and objs: "call_objs c \<subseteq> Q" and lim: "within_limits c st"
    and Pop: "c = Pop q"
  shows "\<exists>r st' T'. exec cmp c st = Some (r, st') \<and> r \<noteq> Inl invalid_access \<and>
           wellformed Q st' T' \<and> sized Q st' T' \<and> (oa \<longrightarrow> ordered cmp Q T') \<and>
           (\<forall>q. q \<notin> targets c \<longrightarrow> T' q = T q \<and> objs st' q = objs st q)"
proof -
  from objs Pop have q: "q \<in> Q" by simp
  show ?thesis
  proof (cases "capacity (objs st q) = 0")
    case True
    then have "exec cmp c st = Some (Inl container_is_empty, st)"
      using Pop by (simp add: pop_def empty_pq_def)
    then show ?thesis using wf sz ord
      by (intro exI[of _ "Inl container_is_empty"] exI[of _ st] exI[of _ T]) simp
  next
    case False
    from sized_nonempty[OF sz q False] obtain l pb v r where T: "T q = Node l (pb, v) r" by blast
    let ?M = "Merge_spec (holds cmp) l r"
    from pop_step[OF wf q T False, of cmp] show ?thesis
    proof
      assume "pop cmp q st = Some (Inr (), st) \<and> (\<exists>x y. cmp x y = None)"
      then have "exec cmp c st = Some (Inr (), st)" using Pop by simp
      then show ?thesis using wf sz ord
        by (intro exI[of _ "Inr ()"] exI[of _ st] exI[of _ T]) simp
    next
      assume "\<exists>st'. pop cmp q st = Some (Inr (), st') \<and> wellformed Q st' (T(q := ?M)) \<and>
            objs st' = (objs st)(q := \<lparr>capacity = scast (ucast (capacity (objs st q) - 1) :: 32 word),
               root = root_ptr ?M\<rparr>) \<and>
            fresh st' = fresh st \<and> cells st' pb = None \<and>
            (\<forall>x. x \<noteq> pb \<longrightarrow> (cells st' x = None) = (cells st x = None)) \<and>
            (\<forall>x. x \<notin> set (addrs (T q)) \<longrightarrow> cells st' x = cells st x) \<and>
            (\<exists>nb h. cells st pb = Some nb \<and>
               MergeNode cmp (ls nb) (rs nb) (cells st) = Some (Inr (root (objs st' q)), h) \<and>
               cells st' = h(pb := None))"
      then obtain st' where p: "pop cmp q st = Some (Inr (), st')"
        and wf': "wellformed Q st' (T(q := ?M))"
        and o0: "objs st' = (objs st)(q := \<lparr>capacity = scast (ucast (capacity (objs st q) - 1) :: 32 word),
               root = root_ptr ?M\<rparr>)"
        by blast
      have le: "unat (capacity (objs st q)) \<le> 2 ^ 31" using lim Pop by simp
      have o': "objs st' = (objs st)(q := \<lparr>capacity = capacity (objs st q) - 1, root = root_ptr ?M\<rparr>)"
        using o0 by (simp only: pop_size(1)[OF False le])
      have "unat (capacity (objs st q) - 1) = unat (capacity (objs st q)) - 1"
        by (rule pop_size(2)[OF False le])
      moreover have "unat (capacity (objs st q)) = size (T q)" using sz q by (simp add: sized_def)
      ultimately have "unat (capacity (objs st q) - 1) = size ?M"
        using T by (simp add: size_Merge_spec)
      then have sz': "sized Q st' (T(q := ?M))"
        using sz by (simp add: sized_def o')
      have ord': "oa \<longrightarrow> ordered cmp Q (T(q := ?M))"
      proof
        assume oa
        with ord asym have o: "ordered cmp Q T" and a: "asymmetric cmp" by simp_all
        have "heap_order (holds cmp) ?M"
          using o q T by (intro heap_order_Merge_spec asymmetric_holds[OF a]) (auto simp: ordered_def)
        then show "ordered cmp Q (T(q := ?M))" using o by (simp add: ordered_def)
      qed
      show ?thesis using p wf' sz' ord' o' Pop
        by (intro exI[of _ "Inr ()"] exI[of _ st'] exI[of _ "T(q := ?M)"]) simp
    qed
  qed
qed

lemma exec_merge:
  assumes wf: "wellformed Q st T" and sz: "sized Q st T" and ord: "oa \<longrightarrow> ordered cmp Q T"
    and asym: "oa \<longrightarrow> asymmetric cmp" and objs: "call_objs c \<subseteq> Q" and lim: "within_limits c st"
    and Merge: "c = Merge q other"
  shows "\<exists>r st' T'. exec cmp c st = Some (r, st') \<and> r \<noteq> Inl invalid_access \<and>
           wellformed Q st' T' \<and> sized Q st' T' \<and> (oa \<longrightarrow> ordered cmp Q T') \<and>
           (\<forall>q. q \<notin> targets c \<longrightarrow> T' q = T q \<and> objs st' q = objs st q)"
proof -
  from objs Merge have q: "q \<in> Q" and o: "other \<in> Q" by simp_all
  show ?thesis
  proof (cases "q = other")
    case True
    from merge_self_step[OF wf q, of cmp] show ?thesis
    proof
      assume "merge cmp q q st = Some (Inr (), st) \<and> (\<exists>x y. cmp x y = None)"
      then have "exec cmp c st = Some (Inr (), st)" using Merge True by simp
      then show ?thesis using wf sz ord
        by (intro exI[of _ "Inr ()"] exI[of _ st] exI[of _ T]) simp
    next
      assume "\<exists>st'. merge cmp q q st = Some (Inr (), st') \<and> wellformed Q st' (T(q := Leaf)) \<and>
            objs st' = (objs st)(q := \<lparr>capacity = 0, root = None\<rparr>) \<and> fresh st' = fresh st"
      then obtain st' where m: "merge cmp q q st = Some (Inr (), st')"
        and wf': "wellformed Q st' (T(q := Leaf))"
        and o': "objs st' = (objs st)(q := \<lparr>capacity = 0, root = None\<rparr>)"
        by blast
      have sz': "sized Q st' (T(q := Leaf))" using sz by (simp add: sized_def o')
      have ord': "oa \<longrightarrow> ordered cmp Q (T(q := Leaf))" using ord by (simp add: ordered_def)
      show ?thesis using m wf' sz' ord' o' Merge True
        by (intro exI[of _ "Inr ()"] exI[of _ st'] exI[of _ "T(q := Leaf)"]) simp
    qed
  next
    case ne: False
    from lim Merge ne have sum: "unat (capacity (objs st q)) + unat (capacity (objs st other)) < 2 ^ 64"
      by simp
    let ?M = "Merge_spec (holds cmp) (T q) (T other)"
    let ?T' = "T(other := Leaf, q := ?M)"
    from merge_step[OF wf q o ne, of cmp] show ?thesis
    proof
      assume "merge cmp q other st = Some (Inr (), st) \<and> (\<exists>x y. cmp x y = None)"
      then have "exec cmp c st = Some (Inr (), st)" using Merge by simp
      then show ?thesis using wf sz ord
        by (intro exI[of _ "Inr ()"] exI[of _ st] exI[of _ T]) simp
    next
      assume "\<exists>st'. merge cmp q other st = Some (Inr (), st') \<and> wellformed Q st' ?T' \<and>
              objs st' = (objs st)(q := \<lparr>capacity = capacity (objs st q) + capacity (objs st other),
                   root = root_ptr ?M\<rparr>, other := \<lparr>capacity = 0, root = None\<rparr>) \<and>
              fresh st' = fresh st \<and>
              MergeNode cmp (root (objs st q)) (root (objs st other)) (cells st) =
                Some (Inr (root (objs st' q)), cells st') \<and>
              (\<forall>x. (cells st' x = None) = (cells st x = None))"
      then obtain st' where m: "merge cmp q other st = Some (Inr (), st')"
        and wf': "wellformed Q st' ?T'"
        and o': "objs st' = (objs st)(q := \<lparr>capacity = capacity (objs st q) + capacity (objs st other),
                   root = root_ptr ?M\<rparr>, other := \<lparr>capacity = 0, root = None\<rparr>)"
        by blast
      have "unat (capacity (objs st q) + capacity (objs st other)) =
            unat (capacity (objs st q)) + unat (capacity (objs st other))"
        using sum by (rule unat_plus)
      then have sz': "sized Q st' ?T'"
        using sz q o ne by (auto simp: sized_def o' size_Merge_spec)
      have ord': "oa \<longrightarrow> ordered cmp Q ?T'"
      proof
        assume oa
        with ord asym have o1: "ordered cmp Q T" and a: "asymmetric cmp" by simp_all
        have "heap_order (holds cmp) ?M"
          using o1 q o by (intro heap_order_Merge_spec asymmetric_holds[OF a]) (auto simp: ordered_def)
        then show "ordered cmp Q ?T'" using o1 by (simp add: ordered_def)
      qed
      show ?thesis using m wf' sz' ord' o' Merge
        by (intro exI[of _ "Inr ()"] exI[of _ st'] exI[of _ ?T']) simp
    qed
  qed
qed

lemma exec_assign:
  assumes wf: "wellformed Q st T" and sz: "sized Q st T" and ord: "oa \<longrightarrow> ordered cmp Q T"
    and asym: "oa \<longrightarrow> asymmetric cmp" and objs: "call_objs c \<subseteq> Q" and lim: "within_limits c st"
    and Assign: "c = Assign q other"
  shows "\<exists>r st' T'. exec cmp c st = Some (r, st') \<and> r \<noteq> Inl invalid_access \<and>
           wellformed Q st' T' \<and> sized Q st' T' \<and> (oa \<longrightarrow> ordered cmp Q T') \<and>
           (\<forall>q. q \<notin> targets c \<longrightarrow> T' q = T q \<and> objs st' q = objs st q)"
proof -
  from objs Assign have q: "q \<in> Q" and o: "other \<in> Q" by simp_all
  show ?thesis
  proof (cases "other = q")
    case True
    then have "exec cmp c st = Some (Inr (), st)" using Assign by (simp add: assign_def)
    then show ?thesis using wf sz ord
      by (intro exI[of _ "Inr ()"] exI[of _ st] exI[of _ T]) simp
  next
    case False
    then have ne: "q \<noteq> other" by simp
    let ?R = "relabel (fresh st) (T other)"
    from assign_step[OF wf q o ne] obtain st' where a: "assign q other st = Some (Inr (), st')"
      and wf': "wellformed Q st' (T(q := ?R))"
      and o': "objs st' = (objs st)(q := \<lparr>capacity = capacity (objs st other), root = root_ptr ?R\<rparr>)"
      by blast
    have sz': "sized Q st' (T(q := ?R))"
      using sz q o by (auto simp: sized_def o')
    have ord': "oa \<longrightarrow> ordered cmp Q (T(q := ?R))"
      using ord o by (simp add: ordered_def heap_order_relabel)
    show ?thesis using a wf' sz' ord' o' Assign
      by (intro exI[of _ "Inr ()"] exI[of _ st'] exI[of _ "T(q := ?R)"]) simp
  qed
qed

lemma exec_step:
  assumes wf: "wellformed Q st T" and sz: "sized Q st T" and ord: "oa \<longrightarrow> ordered cmp Q T"
    and asym: "oa \<longrightarrow> asymmetric cmp" and objs: "call_objs c \<subseteq> Q" and lim: "within_limits c st"
  shows "\<exists>r st' T'. exec cmp c st = Some (r, st') \<and> r \<noteq> Inl invalid_access \<and>
           wellformed Q st' T' \<and> sized Q st' T' \<and> (oa \<longrightarrow> ordered cmp Q T') \<and>
           (\<forall>q. q \<notin> targets c \<longrightarrow> T' q = T q \<and> objs st' q = objs st q)"
proof (cases c)
  case (Push q e)
  from exec_push[OF assms this] show ?thesis .
next
  case (Pop q)
  from exec_pop[OF assms this] show ?thesis .
next
  case (Merge q other)
  from exec_merge[OF assms this] show ?thesis .
next
  case (Assign q other)
  from exec_assign[OF assms this] show ?thesis .
qed

lemma run_invariant:
  assumes "wellformed Q st T" "sized Q st T" "oa \<longrightarrow> ordered cmp Q T" "oa \<longrightarrow> asymmetric cmp"
    "\<forall>c\<in>set cs. call_objs c \<subseteq> Q" "run_within_limits cmp cs st"
  shows "\<exists>st' T'. run cmp cs st = Some st' \<and> wellformed Q st' T' \<and> sized Q st' T' \<and>
           (oa \<longrightarrow> ordered cmp Q T') \<and>
           (\<forall>q. q \<notin> (\<Union>c\<in>set cs. targets c) \<longrightarrow> T' q = T q \<and> objs st' q = objs st q)"
  using assms
proof (induction cs arbitrary: st T)
  case Nil
  then show ?case by auto
next
  case (Cons c cs)
  from Cons.prems have objs: "call_objs c \<subseteq> Q" and lim: "within_limits c st" by simp_all
  from exec_step[OF Cons.prems(1,2,3,4) objs lim]
  obtain r st1 T1 where e: "exec cmp c st = Some (r, st1)" and r: "r \<noteq> Inl invalid_access"
    and inv1: "wellformed Q st1 T1" "sized Q st1 T1" "oa \<longrightarrow> ordered cmp Q T1"
    and fr1: "\<forall>q. q \<notin> targets c \<longrightarrow> T1 q = T q \<and> objs st1 q = objs st q"
    by blast
  have lim': "run_within_limits cmp cs st1" using Cons.prems(6) e by simp
  have objs': "\<forall>c\<in>set cs. call_objs c \<subseteq> Q" using Cons.prems(5) by simp
  from Cons.IH[OF inv1 Cons.prems(4) objs' lim']
  obtain st' T' where run': "run cmp cs st1 = Some st'"
    and inv': "wellformed Q st' T'" "sized Q st' T'" "oa \<longrightarrow> ordered cmp Q T'"
    and fr': "\<forall>q. q \<notin> (\<Union>c\<in>set cs. targets c) \<longrightarrow> T' q = T1 q \<and> objs st' q = objs st1 q"
    by blast
  have "run cmp (c # cs) st = Some st'" using e r run' by simp
  moreover have "\<forall>q. q \<notin> (\<Union>c\<in>set (c # cs). targets c) \<longrightarrow> T' q = T q \<and> objs st' q = objs st q"
    using fr1 fr' by simp
  ultimately show ?case using inv' by blast
qed

lemma init_invariant:
  "wellformed UNIV init (\<lambda>q. Leaf)" "sized UNIV init (\<lambda>q. Leaf)" "ordered cmp UNIV (\<lambda>q. Leaf)"
  by (simp_all add: wellformed_def sized_def ordered_def init_def)

section \<open>Heap order needs no size bound\<close>

lemma ordered_update:
  assumes "oa \<longrightarrow> ordered cmp Q T" "oa \<longrightarrow> heap_order (holds cmp) M"
  shows "oa \<longrightarrow> ordered cmp Q (T(q := M))"
  using assms by (simp add: ordered_def)

lemma ordered_Merge:
  assumes "oa \<longrightarrow> ordered cmp Q T" "oa \<longrightarrow> asymmetric cmp" "q \<in> Q"
    "oa \<longrightarrow> heap_order (holds cmp) B"
  shows "oa \<longrightarrow> heap_order (holds cmp) (Merge_spec (holds cmp) (T q) B)"
proof
  assume oa
  with assms have "heap_order (holds cmp) (T q)" "heap_order (holds cmp) B" "asymmetric cmp"
    by (simp_all add: ordered_def)
  then show "heap_order (holds cmp) (Merge_spec (holds cmp) (T q) B)"
    by (intro heap_order_Merge_spec asymmetric_holds)
qed

lemma exec_wf:
  assumes wf: "wellformed Q st T" and ord: "oa \<longrightarrow> ordered cmp Q T"
    and asym: "oa \<longrightarrow> asymmetric cmp" and objs: "call_objs c \<subseteq> Q"
    and e: "exec cmp c st = Some (r, st')" and r: "r \<noteq> Inl invalid_access"
  shows "\<exists>T'. wellformed Q st' T' \<and> (oa \<longrightarrow> ordered cmp Q T') \<and>
           (\<forall>q. q \<notin> targets c \<longrightarrow> T' q = T q \<and> objs st' q = objs st q)"
proof (cases c)
  case (Push q v)
  with objs have q: "q \<in> Q" by simp
  let ?M = "Merge_spec (holds cmp) (T q) (Node Leaf (fresh st, v) Leaf)"
  from push_step[OF wf q, of cmp v] show ?thesis
  proof
    assume "push cmp v q st = Some (Inr (), st\<lparr>fresh := Suc (fresh st)\<rparr>) \<and> (\<exists>x y. cmp x y = None)"
    with e Push have "st' = st\<lparr>fresh := Suc (fresh st)\<rparr>" by simp
    moreover have "wellformed Q (st\<lparr>fresh := Suc (fresh st)\<rparr>) T"
      using wf by (rule wellformed_fresh) simp
    ultimately show ?thesis using ord by (intro exI[of _ T]) simp
  next
    assume "\<exists>s. push cmp v q st = Some (Inr (), s) \<and> wellformed Q s (T(q := ?M)) \<and>
            objs s = (objs st)(q := \<lparr>capacity = capacity (objs st q) + 1, root = root_ptr ?M\<rparr>) \<and>
            fresh s = Suc (fresh st)"
    with e Push have wf': "wellformed Q st' (T(q := ?M))"
      and o': "objs st' = (objs st)(q := \<lparr>capacity = capacity (objs st q) + 1, root = root_ptr ?M\<rparr>)"
      by auto
    have "oa \<longrightarrow> heap_order (holds cmp) ?M"
      by (rule ordered_Merge[OF ord asym q]) simp
    from ordered_update[OF ord this] wf' o' Push show ?thesis
      by (intro exI[of _ "T(q := ?M)"]) simp
  qed
next
  case (Pop q)
  with objs have q: "q \<in> Q" by simp
  show ?thesis
  proof (cases "capacity (objs st q) = 0")
    case True
    with e Pop have "st' = st" by (simp add: pop_def empty_pq_def)
    then show ?thesis using wf ord by (intro exI[of _ T]) simp
  next
    case False
    show ?thesis
    proof (cases "T q")
      case Leaf
      with wf_tree[OF wf q] have "root (objs st q) = None" by simp
      with e Pop False r show ?thesis by (simp add: pop_def empty_pq_def Let_def)
    next
      case (Node l x rt)
      obtain pb v where x: "x = (pb, v)" by (cases x)
      let ?M = "Merge_spec (holds cmp) l rt"
      from pop_step[OF wf q Node[unfolded x] False, of cmp] show ?thesis
      proof
        assume "pop cmp q st = Some (Inr (), st) \<and> (\<exists>x y. cmp x y = None)"
        with e Pop have "st' = st" by simp
        then show ?thesis using wf ord by (intro exI[of _ T]) simp
      next
        assume "\<exists>s. pop cmp q st = Some (Inr (), s) \<and> wellformed Q s (T(q := ?M)) \<and>
            objs s = (objs st)(q := \<lparr>capacity = scast (ucast (capacity (objs st q) - 1) :: 32 word),
               root = root_ptr ?M\<rparr>) \<and>
            fresh s = fresh st \<and> cells s pb = None \<and>
            (\<forall>x. x \<noteq> pb \<longrightarrow> (cells s x = None) = (cells st x = None)) \<and>
            (\<forall>x. x \<notin> set (addrs (T q)) \<longrightarrow> cells s x = cells st x) \<and>
            (\<exists>nb h. cells st pb = Some nb \<and>
               MergeNode cmp (ls nb) (rs nb) (cells st) = Some (Inr (root (objs s q)), h) \<and>
               cells s = h(pb := None))"
        with e Pop have wf': "wellformed Q st' (T(q := ?M))"
          and o': "\<forall>q'. q' \<noteq> q \<longrightarrow> objs st' q' = objs st q'"
          by auto
        have "oa \<longrightarrow> heap_order (holds cmp) ?M"
        proof
          assume oa
          with ord asym q Node have "heap_order (holds cmp) l" "heap_order (holds cmp) rt"
            "asymmetric cmp" by (auto simp: ordered_def)
          then show "heap_order (holds cmp) ?M"
            by (intro heap_order_Merge_spec asymmetric_holds)
        qed
        from ordered_update[OF ord this] wf' o' Pop show ?thesis
          by (intro exI[of _ "T(q := ?M)"]) simp
      qed
    qed
  qed
next
  case (Merge q other)
  with objs have q: "q \<in> Q" and o: "other \<in> Q" by simp_all
  show ?thesis
  proof (cases "q = other")
    case True
    from merge_self_step[OF wf q, of cmp] show ?thesis
    proof
      assume "merge cmp q q st = Some (Inr (), st) \<and> (\<exists>x y. cmp x y = None)"
      with e Merge True have "st' = st" by simp
      then show ?thesis using wf ord by (intro exI[of _ T]) simp
    next
      assume "\<exists>s. merge cmp q q st = Some (Inr (), s) \<and> wellformed Q s (T(q := Leaf)) \<and>
            objs s = (objs st)(q := \<lparr>capacity = 0, root = None\<rparr>) \<and> fresh s = fresh st"
      with e Merge True have wf': "wellformed Q st' (T(q := Leaf))"
        and o': "objs st' = (objs st)(q := \<lparr>capacity = 0, root = None\<rparr>)"
        by auto
      have "oa \<longrightarrow> heap_order (holds cmp) (Leaf :: (addr \<times> 'a) tree)" by simp
      from ordered_update[OF ord this] wf' o' Merge show ?thesis
        by (intro exI[of _ "T(q := Leaf)"]) simp
    qed
  next
    case ne: False
    let ?M = "Merge_spec (holds cmp) (T q) (T other)"
    let ?T' = "T(other := Leaf, q := ?M)"
    from merge_step[OF wf q o ne, of cmp] show ?thesis
    proof
      assume "merge cmp q other st = Some (Inr (), st) \<and> (\<exists>x y. cmp x y = None)"
      with e Merge have "st' = st" by simp
      then show ?thesis using wf ord by (intro exI[of _ T]) simp
    next
      assume "\<exists>s. merge cmp q other st = Some (Inr (), s) \<and> wellformed Q s ?T' \<and>
            objs s = (objs st)(q := \<lparr>capacity = capacity (objs st q) + capacity (objs st other),
                 root = root_ptr ?M\<rparr>, other := \<lparr>capacity = 0, root = None\<rparr>) \<and>
            fresh s = fresh st \<and>
            MergeNode cmp (root (objs st q)) (root (objs st other)) (cells st) =
              Some (Inr (root (objs s q)), cells s) \<and>
            (\<forall>x. (cells s x = None) = (cells st x = None))"
      with e Merge have wf': "wellformed Q st' ?T'"
        and o': "\<forall>q'. q' \<noteq> q \<longrightarrow> q' \<noteq> other \<longrightarrow> objs st' q' = objs st q'"
        by auto
      have "oa \<longrightarrow> heap_order (holds cmp) ?M"
        by (rule ordered_Merge[OF ord asym q]) (use ord o in \<open>simp add: ordered_def\<close>)
      moreover have "oa \<longrightarrow> ordered cmp Q (T(other := Leaf))"
        using ord by (simp add: ordered_def)
      ultimately have "oa \<longrightarrow> ordered cmp Q ?T'" by (simp add: ordered_def)
      with wf' o' Merge show ?thesis by (intro exI[of _ ?T']) simp
    qed
  qed
next
  case (Assign q other)
  with objs have q: "q \<in> Q" and o: "other \<in> Q" by simp_all
  show ?thesis
  proof (cases "other = q")
    case True
    with e Assign have "st' = st" by (simp add: assign_def)
    then show ?thesis using wf ord by (intro exI[of _ T]) simp
  next
    case False
    then have ne: "q \<noteq> other" by simp
    let ?R = "relabel (fresh st) (T other)"
    from assign_step[OF wf q o ne] e Assign have wf': "wellformed Q st' (T(q := ?R))"
      and o': "objs st' = (objs st)(q := \<lparr>capacity = capacity (objs st other), root = root_ptr ?R\<rparr>)"
      by auto
    have "oa \<longrightarrow> heap_order (holds cmp) ?R"
      using ord o by (simp add: ordered_def heap_order_relabel)
    from ordered_update[OF ord this] wf' o' Assign show ?thesis
      by (intro exI[of _ "T(q := ?R)"]) simp
  qed
qed

lemma run_wf:
  assumes "wellformed Q st T" "oa \<longrightarrow> ordered cmp Q T" "oa \<longrightarrow> asymmetric cmp"
    "\<forall>c\<in>set cs. call_objs c \<subseteq> Q" "run cmp cs st = Some st'"
  shows "\<exists>T'. wellformed Q st' T' \<and> (oa \<longrightarrow> ordered cmp Q T') \<and>
           (\<forall>q. q \<notin> (\<Union>c\<in>set cs. targets c) \<longrightarrow> T' q = T q \<and> objs st' q = objs st q)"
  using assms
proof (induction cs arbitrary: st T)
  case Nil
  then show ?case by auto
next
  case (Cons c cs)
  from Cons.prems(5) obtain r st1 where e: "exec cmp c st = Some (r, st1)"
    and r: "r \<noteq> Inl invalid_access" and run': "run cmp cs st1 = Some st'"
    by (auto split: option.splits if_splits)
  from Cons.prems(4) have objs: "call_objs c \<subseteq> Q" and objs': "\<forall>c\<in>set cs. call_objs c \<subseteq> Q"
    by simp_all
  from exec_wf[OF Cons.prems(1,2,3) objs e r]
  obtain T1 where inv1: "wellformed Q st1 T1" "oa \<longrightarrow> ordered cmp Q T1"
    and fr1: "\<forall>q. q \<notin> targets c \<longrightarrow> T1 q = T q \<and> objs st1 q = objs st q"
    by blast
  from Cons.IH[OF inv1 Cons.prems(3) objs' run']
  obtain T' where inv': "wellformed Q st' T'" "oa \<longrightarrow> ordered cmp Q T'"
    and fr': "\<forall>q. q \<notin> (\<Union>c\<in>set cs. targets c) \<longrightarrow> T' q = T1 q \<and> objs st' q = objs st1 q"
    by blast
  have "\<forall>q. q \<notin> (\<Union>c\<in>set (c # cs). targets c) \<longrightarrow> T' q = T q \<and> objs st' q = objs st q"
    using fr1 fr' by simp
  with inv' show ?case by blast
qed

section \<open>The claims about single calls\<close>

lemma state_cells_same [simp]: "st\<lparr>cells := cells st\<rparr> = st"
  by simp

lemma wellformed_two_heaps: "wellformed {0, 1} two_heaps two_trees"
  by (simp add: wellformed_def two_heaps_def two_trees_def tree4_def tree7_def two_nodes_def)

lemma wellformed_four_heap: "wellformed {0} four_heap (\<lambda>q. four_tree)"
  by (simp add: wellformed_def four_heap_def four_tree_def four_cells_def)

lemma pop_error_iff:
  "(\<exists>st'. pop cmp q st = Some (Inl container_is_empty, st')) \<longleftrightarrow> size_pq q st = 0"
proof
  assume "\<exists>st'. pop cmp q st = Some (Inl container_is_empty, st')"
  then obtain st' where p: "pop cmp q st = Some (Inl container_is_empty, st')" by blast
  show "size_pq q st = 0"
  proof (rule ccontr)
    assume "size_pq q st \<noteq> 0"
    then have ne: "\<not> empty_pq q st" by (simp add: size_pq_def empty_pq_def)
    show False
    proof (cases "root (objs st q)")
      case None
      with p ne show False by (simp add: pop_def Let_def)
    next
      case (Some pb)
      show False
      proof (cases "cells st pb")
        case None
        with p ne Some show False by (simp add: pop_def Let_def)
      next
        case nb: (Some nb)
        from p ne Some nb obtain r h where
          "(case r of Inl err \<Rightarrow>
               (if err = invalid_access then Some (Inl invalid_access, st\<lparr>cells := h\<rparr>)
                else Some (Inr (), st\<lparr>cells := h\<rparr>))
             | Inr p \<Rightarrow>
               (if h pb = None then Some (Inl invalid_access, st\<lparr>cells := h\<rparr>)
                else Some (Inr (), st\<lparr>cells := h(pb := None),
                   objs := (objs st)(q := \<lparr>capacity = scast (ucast (capacity (objs st q) - 1) :: 32 word),
                                           root = p\<rparr>)\<rparr>))) = Some (Inl container_is_empty, st')"
          by (auto simp: pop_def Let_def bind_eq_Some_conv)
        then show False by (cases r) (simp_all split: if_splits)
      qed
    qed
  qed
next
  assume "size_pq q st = 0"
  then show "\<exists>st'. pop cmp q st = Some (Inl container_is_empty, st')"
    by (simp add: pop_def size_pq_def empty_pq_def)
qed

text \<open>
  Claim C6. \<^verbatim>\<open>top\<close> and \<^verbatim>\<open>pop\<close> raise \<^verbatim>\<open>container_is_empty\<close> exactly
  when \<^verbatim>\<open>size()\<close> is 0, and \<^verbatim>\<open>pop\<close> then leaves the state as it is; a freshly
  constructed queue is empty, has size 0, and both calls raise the error on it; on a
  queue of non-zero size whose root is an allocated node, \<^verbatim>\<open>top\<close> returns the value
  of that node. \<^verbatim>\<open>top\<close> is a \<^verbatim>\<open>const\<close> member and its model returns no state.
\<close>

theorem empty_container_error:
  "(top_pq q st = Inl container_is_empty \<longleftrightarrow> size_pq q st = 0) \<and>
   ((\<exists>st'. pop cmp q st = Some (Inl container_is_empty, st')) \<longleftrightarrow> size_pq q st = 0) \<and>
   (size_pq q st = 0 \<longrightarrow> pop cmp q st = Some (Inl container_is_empty, st)) \<and>
   empty_pq q (priority_queue_default q st) \<and> size_pq q (priority_queue_default q st) = 0 \<and>
   top_pq q (priority_queue_default q st) = Inl container_is_empty \<and>
   pop cmp q (priority_queue_default q st) =
     Some (Inl container_is_empty, priority_queue_default q st) \<and>
   (size_pq q st \<noteq> 0 \<longrightarrow> root (objs st q) = Some a \<longrightarrow> cells st a = Some n \<longrightarrow>
      top_pq q st = Inr (val n))"
proof -
  have 1: "top_pq q st = Inl container_is_empty \<longleftrightarrow> size_pq q st = 0"
    by (auto simp: top_pq_def size_pq_def empty_pq_def split: option.splits)
  have 3: "size_pq q st = 0 \<longrightarrow> pop cmp q st = Some (Inl container_is_empty, st)"
    by (simp add: pop_def size_pq_def empty_pq_def)
  have 4: "empty_pq q (priority_queue_default q st)" "size_pq q (priority_queue_default q st) = 0"
    "top_pq q (priority_queue_default q st) = Inl container_is_empty"
    "pop cmp q (priority_queue_default q st) =
       Some (Inl container_is_empty, priority_queue_default q st)"
    by (simp_all add: priority_queue_default_def empty_pq_def size_pq_def top_pq_def pop_def)
  have 5: "size_pq q st \<noteq> 0 \<longrightarrow> root (objs st q) = Some a \<longrightarrow> cells st a = Some n \<longrightarrow>
      top_pq q st = Inr (val n)"
    by (simp add: top_pq_def size_pq_def empty_pq_def)
  show ?thesis using 1 pop_error_iff[of cmp q st] 3 4 5 by blast
qed

theorem empty_container_error_witness:
  "size_pq 0 four_heap \<noteq> 0 \<and> root (objs four_heap 0) = Some 4 \<and>
   cells four_heap 4 = Some \<lparr>val = 9, ls = Some 2, rs = Some 1\<rparr> \<and>
   top_pq 0 four_heap = Inr 9 \<and> size_pq 1 four_heap = 0 \<and>
   top_pq 1 four_heap = Inl container_is_empty \<and>
   pop (total (<)) 1 four_heap = Some (Inl container_is_empty, four_heap)"
proof -
  have h: "size_pq 0 four_heap \<noteq> 0" "root (objs four_heap 0) = Some 4"
    "cells four_heap 4 = Some \<lparr>val = 9, ls = Some 2, rs = Some 1\<rparr>" "size_pq 1 four_heap = 0"
    by (simp_all add: four_heap_def four_cells_def size_pq_def)
  from empty_container_error[of 0 four_heap "total (<)" 4 "\<lparr>val = 9, ls = Some 2, rs = Some 1\<rparr>"] h
  have a: "top_pq 0 four_heap = Inr 9" by simp
  from empty_container_error[of 1 four_heap "total (<)"] h
  have b: "top_pq 1 four_heap = Inl container_is_empty"
    "pop (total (<)) 1 four_heap = Some (Inl container_is_empty, four_heap)" by simp_all
  show ?thesis using h a b by simp
qed

text \<open>
  Claim C10. Assigning a queue to itself returns at once and leaves the whole state, and so
  the tree and the size of the queue, exactly as it was: the test \<^verbatim>\<open>&other == this\<close>
  comes before \<^verbatim>\<open>ClearNode\<close>. This holds in every state.
\<close>

theorem self_assignment_noop: "assign q q st = Some (Inr (), st)"
  by (simp add: assign_def)

text \<open>
  Claim C7, as the code has it. When the merge inside \<^verbatim>\<open>pop\<close> throws,
  \<^verbatim>\<open>pop\<close> returns normally and the state is the one before the call: the size is
  unchanged, no node is released or altered, and \<^verbatim>\<open>root\<close> still points to the old
  root node, which therefore stays reachable. \<^verbatim>\<open>MergeNode\<close> writes only after its
  recursive call has returned, so a throw leaves the store untouched, and the assignment
  to \<^verbatim>\<open>root\<close> is not reached.
\<close>

theorem pop_failed_merge_noop:
  assumes "\<not> empty_pq q st" "root (objs st q) = Some pb" "cells st pb = Some nb"
    "MergeNode cmp (ls nb) (rs nb) (cells st) = Some (Inl compare_failed, h)"
  shows "pop cmp q st = Some (Inr (), st) \<and> h = cells st"
proof -
  have h: "h = cells st" using assms(4) by (rule MergeNode_throw_unchanged)
  then show ?thesis using assms by (simp add: pop_def Let_def)
qed

lemma four_heap_merge_throws:
  "MergeNode throws_on_3 (Some 2) (Some 1) four_cells = Some (Inl compare_failed, four_cells)"
  by (simp add: MergeNode.simps four_cells_def throws_on_3_def)

theorem pop_failed_merge_noop_witness:
  "\<not> empty_pq 0 four_heap \<and> root (objs four_heap 0) = Some 4 \<and>
   cells four_heap 4 = Some \<lparr>val = 9, ls = Some 2, rs = Some 1\<rparr> \<and>
   MergeNode throws_on_3 (Some 2) (Some 1) (cells four_heap) = Some (Inl compare_failed, four_cells) \<and>
   pop throws_on_3 0 four_heap = Some (Inr (), four_heap)"
proof -
  have h: "\<not> empty_pq 0 four_heap" "root (objs four_heap 0) = Some 4"
    "cells four_heap 4 = Some \<lparr>val = 9, ls = Some 2, rs = Some 1\<rparr>"
    by (simp_all add: four_heap_def four_cells_def empty_pq_def)
  have m: "MergeNode throws_on_3 (ls \<lparr>val = 9, ls = Some 2, rs = Some 1\<rparr>)
      (rs \<lparr>val = (9::int), ls = Some 2, rs = Some 1\<rparr>) (cells four_heap) =
      Some (Inl compare_failed, four_cells)"
    using four_heap_merge_throws by (simp add: four_heap_def)
  from pop_failed_merge_noop[OF h m] m h show ?thesis by simp
qed

text \<open>
  The claim as stated fails on this input: after the swallowed failure the old root, at
  address 4, is still what \<^verbatim>\<open>root\<close> points to, and it is still allocated.
\<close>

theorem pop_failed_merge_counterexample:
  "pop throws_on_3 0 four_heap = Some (Inr (), four_heap) \<and>
   root (objs four_heap 0) = Some 4 \<and>
   cells four_heap 4 = Some \<lparr>val = 9, ls = Some 2, rs = Some 1\<rparr>"
  by (simp add: pop_def Let_def four_heap_def empty_pq_def four_cells_def MergeNode.simps throws_on_3_def)

text \<open>
  Claim C3. For two different queues of a well-formed state and a comparator that does not
  throw, \<^verbatim>\<open>merge\<close> returns normally; the receiver's size is the sum of the two sizes
  (in 64-bit arithmetic, as in the source), its root is the pointer that
  \<^verbatim>\<open>MergeNode(root, other.root)\<close> returns and leads to the merge of the two trees;
  the other queue has size 0, is empty, and its root is null.
\<close>

theorem merge_consumes_other:
  assumes "wellformed Q st T" "q \<in> Q" "other \<in> Q" "q \<noteq> other"
  shows "\<exists>st'. merge (total lt) q other st = Some (Inr (), st') \<and>
      size_pq q st' = size_pq q st + size_pq other st \<and>
      MergeNode (total lt) (root (objs st q)) (root (objs st other)) (cells st) =
        Some (Inr (root (objs st' q)), cells st') \<and>
      tree_at (cells st') (root (objs st' q))
        (Merge_spec (\<lambda>x y. lt (snd x) (snd y)) (T q) (T other)) \<and>
      size_pq other st' = 0 \<and> empty_pq other st' \<and> root (objs st' other) = None"
proof -
  have no: "\<not> (\<exists>x y. total lt x y = None)" by (simp add: total_def)
  from merge_step[OF assms, of "total lt"] no
  obtain st' where m: "merge (total lt) q other st = Some (Inr (), st')"
    and wf': "wellformed Q st' (T(other := Leaf, q := Merge_spec (holds (total lt)) (T q) (T other)))"
    and o': "objs st' = (objs st)(q := \<lparr>capacity = capacity (objs st q) + capacity (objs st other),
                 root = root_ptr (Merge_spec (holds (total lt)) (T q) (T other))\<rparr>,
               other := \<lparr>capacity = 0, root = None\<rparr>)"
    and mn: "MergeNode (total lt) (root (objs st q)) (root (objs st other)) (cells st) =
              Some (Inr (root (objs st' q)), cells st')"
    by blast
  have t: "tree_at (cells st') (root (objs st' q)) (Merge_spec (\<lambda>x y. lt (snd x) (snd y)) (T q) (T other))"
    using wf_tree[OF wf' assms(2)] by (simp add: holds_total)
  show ?thesis using m mn t assms(4) by (auto simp: o' size_pq_def empty_pq_def)
qed

theorem merge_consumes_other_witness:
  "wellformed {0, 1} two_heaps two_trees \<and>
   (\<exists>st'. merge (total (<)) 0 1 two_heaps = Some (Inr (), st') \<and> size_pq 0 st' = 2 \<and>
      size_pq 1 st' = 0 \<and> root (objs st' 1) = None \<and> root (objs st' 0) = Some 2 \<and>
      tree_at (cells st') (Some 2) (Node tree4 (2, 7) Leaf))"
proof -
  have m: "Merge_spec (\<lambda>x y. snd x < snd y) (two_trees 0) (two_trees 1) = Node tree4 (2, 7) Leaf"
    by (simp add: two_trees_def tree4_def tree7_def)
  have s: "size_pq 0 two_heaps + size_pq 1 two_heaps = 2"
    by (simp add: size_pq_def two_heaps_def)
  from merge_consumes_other[OF wellformed_two_heaps, of 0 1 "(<)"] m s
  obtain st' where "merge (total (<)) 0 1 two_heaps = Some (Inr (), st')" "size_pq 0 st' = 2"
     "size_pq 1 st' = 0" "root (objs st' 1) = None"
     "tree_at (cells st') (root (objs st' 0)) (Node tree4 (2, 7) Leaf)"
    by auto
  moreover from this(5) have "root (objs st' 0) = Some 2" by (simp split: option.splits)
  ultimately show ?thesis using wellformed_two_heaps by auto
qed

section \<open>Heap order along runs\<close>

lemma heap_order_not_dominated:
  assumes nt: "\<forall>x y z. \<not> lt x y \<longrightarrow> \<not> lt y z \<longrightarrow> \<not> lt x z"
  shows "heap_order lt t \<Longrightarrow> \<not> dominated lt x t \<Longrightarrow> y \<in> set_tree t \<Longrightarrow> \<not> lt x y"
proof (induction t arbitrary: x)
  case Leaf
  then show ?case by simp
next
  case (Node l z r)
  from Node.prems(2) have xz: "\<not> lt x z" by simp
  from Node.prems(3) consider "y = z" | "y \<in> set_tree l" | "y \<in> set_tree r" by auto
  then show ?case
  proof cases
    case 1
    then show ?thesis using xz by simp
  next
    case 2
    have "\<not> lt z y" using Node.IH(1)[of z] Node.prems(1) 2 by simp
    then show ?thesis using xz nt by blast
  next
    case 3
    have "\<not> lt z y" using Node.IH(2)[of z] Node.prems(1) 3 by simp
    then show ?thesis using xz nt by blast
  qed
qed

lemma top_of_tree:
  assumes "tree_at (cells st) (root (objs st q)) (Node l (a, v) r)" "capacity (objs st q) \<noteq> 0"
  shows "top_pq q st = Inr v"
  using assms by (auto simp: top_pq_def empty_pq_def split: option.splits)

lemma top_is_maximal:
  assumes wf: "wellformed Q st T" and q: "q \<in> Q" and ord: "heap_order (holds cmp) (T q)"
    and asym: "asymmetric cmp"
    and nt: "\<forall>x y z. cmp x y \<noteq> Some True \<longrightarrow> cmp y z \<noteq> Some True \<longrightarrow> cmp x z \<noteq> Some True"
    and top: "top_pq q st = Inr v" and y: "y \<in> set_tree (elems (T q))"
  shows "cmp v y \<noteq> Some True"
proof -
  let ?lt = "\<lambda>x y. cmp x y = Some True"
  from y obtain l x r where T: "T q = Node l x r" by (cases "T q") (auto simp: elems_def)
  obtain a w where x: "x = (a, w)" by (cases x)
  have ne: "capacity (objs st q) \<noteq> 0" using top by (auto simp: top_pq_def empty_pq_def)
  have "top_pq q st = Inr w" using wf_tree[OF wf q] T x ne by (intro top_of_tree) auto
  with top have w: "w = v" by simp
  have "heap_order ?lt (elems (T q))" using ord by (simp only: heap_order_holds)
  then have ho: "heap_order ?lt (Node (elems l) v (elems r))"
    by (simp add: T x w elems_def)
  have irr: "\<not> ?lt v v" using asym by (auto simp: asymmetric_def)
  from y T x w consider "y = v" | "y \<in> set_tree (elems l)" | "y \<in> set_tree (elems r)"
    by (auto simp: elems_def)
  then have "\<not> ?lt v y"
  proof cases
    case 1
    then show ?thesis using irr by simp
  next
    case 2
    show ?thesis
      using ho 2 by (intro heap_order_not_dominated[where t = "elems l" and lt = ?lt]) (use nt in auto)
  next
    case 3
    show ?thesis
      using ho 3 by (intro heap_order_not_dominated[where t = "elems r" and lt = ?lt]) (use nt in auto)
  qed
  then show ?thesis by simp
qed

text \<open>
  Claim C2. Start with every queue empty and make any sequence of \<^verbatim>\<open>push\<close>,
  \<^verbatim>\<open>pop\<close> and \<^verbatim>\<open>merge\<close> calls (copy assignments too), with a comparator that
  never answers yes in both directions; it may throw. In every state the run reaches, the
  root of every queue leads to a tree in heap order: the comparator holds between no node
  and a child of it. When the comparator is moreover negatively transitive, as the default
  \<^verbatim>\<open>std::less\<close> is, the comparator holds between the value \<^verbatim>\<open>top\<close> returns
  and no element of the queue: the root is a maximum. And the run does reach a state
  when it stays within the limits of the counter arithmetic.
\<close>

theorem heap_order_invariant:
  assumes "asymmetric cmp"
  shows "(\<forall>st. run cmp cs init = Some st \<longrightarrow>
           (\<exists>T. \<forall>q. tree_at (cells st) (root (objs st q)) (T q) \<and>
              heap_order (holds cmp) (T q) \<and>
              ((\<forall>x y z. cmp x y \<noteq> Some True \<longrightarrow> cmp y z \<noteq> Some True \<longrightarrow> cmp x z \<noteq> Some True) \<longrightarrow>
               (\<forall>v. top_pq q st = Inr v \<longrightarrow>
                  (\<forall>y\<in>set_tree (elems (T q)). cmp v y \<noteq> Some True))))) \<and>
         (run_within_limits cmp cs init \<longrightarrow> (\<exists>st. run cmp cs init = Some st))"
proof (intro conjI allI impI)
  fix st assume r: "run cmp cs init = Some st"
  have o: "True \<longrightarrow> ordered cmp UNIV (\<lambda>q. Leaf)" by (simp add: init_invariant)
  have a: "True \<longrightarrow> asymmetric cmp" using assms by simp
  have c: "\<forall>c\<in>set cs. call_objs c \<subseteq> UNIV" by simp
  from run_wf[OF init_invariant(1) o a c r]
  obtain T where wf: "wellformed UNIV st T" and ord: "ordered cmp UNIV T"
    by blast
  have "tree_at (cells st) (root (objs st q)) (T q) \<and> heap_order (holds cmp) (T q) \<and>
        ((\<forall>x y z. cmp x y \<noteq> Some True \<longrightarrow> cmp y z \<noteq> Some True \<longrightarrow> cmp x z \<noteq> Some True) \<longrightarrow>
         (\<forall>v. top_pq q st = Inr v \<longrightarrow> (\<forall>y\<in>set_tree (elems (T q)). cmp v y \<noteq> Some True)))" for q :: nat
  proof -
    have ho: "heap_order (holds cmp) (T q)" using ord by (simp add: ordered_def)
    show ?thesis
      using wf_tree[OF wf, of q] ho top_is_maximal[OF wf _ ho assms] by blast
  qed
  then show "\<exists>T. \<forall>q. tree_at (cells st) (root (objs st q)) (T q) \<and>
              heap_order (holds cmp) (T q) \<and>
              ((\<forall>x y z. cmp x y \<noteq> Some True \<longrightarrow> cmp y z \<noteq> Some True \<longrightarrow> cmp x z \<noteq> Some True) \<longrightarrow>
               (\<forall>v. top_pq q st = Inr v \<longrightarrow>
                  (\<forall>y\<in>set_tree (elems (T q)). cmp v y \<noteq> Some True)))"
    by blast
next
  assume lim: "run_within_limits cmp cs init"
  have o: "False \<longrightarrow> ordered cmp UNIV (\<lambda>q. Leaf)" and a: "False \<longrightarrow> asymmetric cmp" by simp_all
  have c: "\<forall>c\<in>set cs. call_objs c \<subseteq> UNIV" by simp
  from run_invariant[OF init_invariant(1,2) o a c lim]
  show "\<exists>st. run cmp cs init = Some st" by blast
qed

lemma limits_five_pushes_one_pop: "run_within_limits less_int five_pushes_one_pop init"
  by (simp add: five_pushes_one_pop_def less_int_def total_def init_def push_def pop_def
      empty_pq_def MergeNode.simps Let_def)

theorem heap_order_invariant_witness:
  "asymmetric less_int \<and> run_within_limits less_int five_pushes_one_pop init \<and>
   (\<exists>st T. run less_int five_pushes_one_pop init = Some st \<and>
      tree_at (cells st) (root (objs st 0)) (T 0) \<and> heap_order (holds less_int) (T 0))"
proof -
  have a: "asymmetric less_int" by (auto simp: asymmetric_def less_int_def total_def)
  note h = heap_order_invariant[OF a, of five_pushes_one_pop]
  from h limits_five_pushes_one_pop
  obtain st where r: "run less_int five_pushes_one_pop init = Some st" by blast
  with h obtain T where
    t: "\<forall>q. tree_at (cells st) (root (objs st q)) (T q) \<and> heap_order (holds less_int) (T q)"
    by blast
  have "\<exists>st T. run less_int five_pushes_one_pop init = Some st \<and>
      tree_at (cells st) (root (objs st 0)) (T 0) \<and> heap_order (holds less_int) (T 0)"
  proof (intro exI conjI)
    show "run less_int five_pushes_one_pop init = Some st" by (rule r)
    show "tree_at (cells st) (root (objs st 0)) (T 0)" using t by blast
    show "heap_order (holds less_int) (T 0)" using t by blast
  qed
  with a limits_five_pushes_one_pop show ?thesis by blast
qed

section \<open>Size consistency\<close>


lemma consistent_tree:
  assumes "tree_at (cells st) (root (objs st q)) t" "distinct (addrs t)"
  shows "consistent q st \<longleftrightarrow> unat (capacity (objs st q)) = size t"
proof
  assume "consistent q st"
  then obtain t' where t': "tree_at (cells st) (root (objs st q)) t'"
    and s: "unat (capacity (objs st q)) = size t'"
    unfolding consistent_def by blast
  from tree_at_unique[OF assms(1) t'] s show "unat (capacity (objs st q)) = size t" by simp
next
  assume "unat (capacity (objs st q)) = size t"
  with assms show "consistent q st" unfolding consistent_def by blast
qed

lemma from_node_ctor:
  assumes t: "tree_at (cells st) p t" and alloc: "\<forall>a. cells st a \<noteq> None \<longrightarrow> a < fresh st"
    and ne: "t \<noteq> Leaf"
  shows "\<exists>st'. priority_queue_from_node q p cap st = Some (Inr (), st') \<and>
           objs st' = (objs st)(q := \<lparr>capacity = cap, root = Some (fresh st)\<rparr>) \<and>
           tree_at (cells st') (Some (fresh st)) (relabel (fresh st) t) \<and>
           fresh st' = fresh st + size t \<and>
           (\<forall>x < fresh st. cells st' x = cells st x) \<and>
           (\<forall>x. cells st' x \<noteq> None \<longrightarrow> x < fresh st')"
proof -
  let ?st0 = "st\<lparr>objs := (objs st)(q := (objs st q)\<lparr>capacity := cap\<rparr>)\<rparr>"
  have t0: "tree_at (cells ?st0) p t" using t by simp
  have a0: "\<forall>a. cells ?st0 a \<noteq> None \<longrightarrow> a < fresh ?st0" using alloc by simp
  from copy_tree[OF t0 a0, of "root_of q"]
  obtain st' where c: "copy (root_of q) p ?st0 = Some (Inr (), st')"
    and f: "fresh st' = fresh st + size t"
    and o: "objs st' = objs (written (root_of q) t ?st0)"
    and ce: "\<forall>x < fresh st. cells st' x = cells (written (root_of q) t ?st0) x"
    and tr: "tree_at (cells st') (root_ptr (relabel (fresh st) t)) (relabel (fresh st) t)"
    and al: "\<forall>x. cells st' x \<noteq> None \<longrightarrow> x < fresh st'"
    by auto
  have "objs st' = (objs st)(q := \<lparr>capacity = cap, root = Some (fresh st)\<rparr>)"
    using o ne by (simp add: written_def)
  moreover have "\<forall>x < fresh st. cells st' x = cells st x"
    using ce by (simp add: written_cells_other)
  moreover have "tree_at (cells st') (Some (fresh st)) (relabel (fresh st) t)"
    using tr ne by (simp add: root_ptr_relabel)
  ultimately show ?thesis using c f al by (simp add: priority_queue_from_node_def)
qed

lemma copy_ctor:
  assumes wf: "wellformed Q st T" and o: "other \<in> Q" and ne: "T other \<noteq> Leaf"
  shows "\<exists>st'. priority_queue_copy q other st = Some (Inr (), st') \<and>
           objs st' = (objs st)(q := \<lparr>capacity = capacity (objs st other), root = Some (fresh st)\<rparr>) \<and>
           tree_at (cells st') (Some (fresh st)) (relabel (fresh st) (T other)) \<and>
           fresh st' = fresh st + size (T other) \<and>
           (\<forall>x < fresh st. cells st' x = cells st x) \<and>
           (\<forall>x. cells st' x \<noteq> None \<longrightarrow> x < fresh st')"
proof -
  have a: "\<forall>a. cells st a \<noteq> None \<longrightarrow> a < fresh st" using wf_alloc[OF wf] by blast
  have "priority_queue_copy q other st =
        priority_queue_from_node q (root (objs st other)) (capacity (objs st other)) st"
  proof (cases "q = other")
    case True
    then show ?thesis by (simp add: priority_queue_copy_def priority_queue_from_node_def Let_def)
  next
    case False
    then show ?thesis by (simp add: priority_queue_copy_def priority_queue_from_node_def Let_def)
  qed
  then show ?thesis using from_node_ctor[OF wf_tree[OF wf o] a ne, of q "capacity (objs st other)"]
    by simp
qed






section \<open>Further properties\<close>

lemma top_pq_tree:
  assumes "tree_at (cells st) (root (objs st q)) t"
  shows "top_pq q st =
    (if capacity (objs st q) = 0 then Inl container_is_empty
     else (case t of Leaf \<Rightarrow> Inl invalid_access | Node l x r \<Rightarrow> Inr (snd x)))"
proof (cases t)
  case Leaf
  with assms show ?thesis by (simp add: top_pq_def empty_pq_def)
next
  case (Node l x r)
  with assms show ?thesis
    by (cases x) (auto simp: top_pq_def empty_pq_def split: option.splits)
qed

lemma wf_insert:
  assumes wf: "wellformed Q st T" and q: "q \<notin> Q"
    and tree: "tree_at (cells st') (root (objs st' q)) M" and dist: "distinct (addrs M)"
    and A: "\<forall>q'\<in>Q. set (addrs (T q')) \<inter> set (addrs M) = {}"
    and frame: "\<forall>x. x \<notin> set (addrs M) \<longrightarrow> cells st' x = cells st x"
    and objs: "\<forall>q'. q' \<noteq> q \<longrightarrow> objs st' q' = objs st q'"
    and alloc: "\<forall>x. cells st' x \<noteq> None \<longrightarrow> x < fresh st'"
  shows "wellformed (insert q Q) st' (T(q := M))"
  unfolding wellformed_def
proof (intro conjI ballI allI impI)
  fix q' assume q': "q' \<in> insert q Q"
  show "tree_at (cells st') (root (objs st' q')) ((T(q := M)) q')"
  proof (cases "q' = q")
    case True
    then show ?thesis using tree by simp
  next
    case False
    with q' have qQ: "q' \<in> Q" by simp
    have "\<forall>x\<in>set (addrs (T q')). cells st' x = cells st x"
      using frame A qQ by auto
    then have "tree_at (cells st') (root (objs st q')) (T q') = tree_at (cells st) (root (objs st q')) (T q')"
      by (rule tree_at_cong)
    then show ?thesis
      using False objs wf_tree[OF wf qQ] by simp
  qed
  show "distinct (addrs ((T(q := M)) q'))"
    using dist q' wf_distinct[OF wf, of q'] by auto
next
  fix q1 q2 assume "q1 \<in> insert q Q" "q2 \<in> insert q Q" "q1 \<noteq> q2"
  then show "set (addrs ((T(q := M)) q1)) \<inter> set (addrs ((T(q := M)) q2)) = {}"
    using A wf_disjoint[OF wf, of q1 q2] by (auto simp: disjoint_iff)
next
  fix a assume "cells st' a \<noteq> None"
  then show "a < fresh st'"
    using alloc by simp
qed

lemma top_pq_relabel:
  assumes "tree_at (cells st) (root (objs st q)) t" "tree_at (cells st') (root (objs st' q')) (relabel k t)"
    "capacity (objs st' q') = capacity (objs st q)"
  shows "top_pq q' st' = top_pq q st"
proof (cases t)
  case Leaf
  with assms show ?thesis by (simp add: top_pq_tree[OF assms(1)] top_pq_tree[OF assms(2)])
next
  case (Node l x r)
  obtain a v where "x = (a, v)" by (cases x)
  with Node assms(3) show ?thesis
    by (simp add: top_pq_tree[OF assms(1)] top_pq_tree[OF assms(2)])
qed

lemma untouched_by_run:
  assumes wf: "wellformed Q st T" and a: "a \<in> Q"
    and cs: "\<forall>k\<in>set cs. call_objs k \<subseteq> Q \<and> a \<notin> targets k"
    and run: "run cmp cs st = Some st'"
  shows "objs st' a = objs st a \<and> tree_at (cells st') (root (objs st' a)) (T a) \<and>
         size_pq a st' = size_pq a st \<and> top_pq a st' = top_pq a st"
proof -
  have o: "False \<longrightarrow> ordered cmp Q T" and as: "False \<longrightarrow> asymmetric cmp" by simp_all
  have c: "\<forall>c\<in>set cs. call_objs c \<subseteq> Q" using cs by blast
  from run_wf[OF wf o as c run]
  obtain T' where wf': "wellformed Q st' T'"
    and fr: "\<forall>q. q \<notin> (\<Union>c\<in>set cs. targets c) \<longrightarrow> T' q = T q \<and> objs st' q = objs st q"
    by blast
  have "a \<notin> (\<Union>c\<in>set cs. targets c)" using cs by blast
  with fr have eq: "T' a = T a" "objs st' a = objs st a" by simp_all
  have t': "tree_at (cells st') (root (objs st' a)) (T a)"
    using wf_tree[OF wf' a] eq by simp
  have "top_pq a st' = top_pq a st"
    by (simp add: top_pq_tree[OF t'] top_pq_tree[OF wf_tree[OF wf a]] eq)
  with t' eq show ?thesis by (simp add: size_pq_def)
qed

lemma sized_four_heap: "sized {0} four_heap (\<lambda>q. four_tree)"
  by (simp add: sized_def four_heap_def four_tree_def)

text \<open>
  \<^verbatim>\<open>pop\<close> on a non-empty queue of a well-formed, size-consistent state, with a
  comparator that does not throw and a size of at most \<open>2^31\<close>: the call succeeds, the new
  root is what \<^verbatim>\<open>MergeNode\<close> returns for the two children of the old root, its tree is
  the merge of their trees, the size drops by exactly 1, the old root node is released and
  no other node is released or allocated, the elements are those before without the old
  root's value, and every other queue is as before.
\<close>

theorem pop_within_int_range:
  assumes "wellformed Q st T" "sized Q st T" "q \<in> Q" "T q = Node l (pb, v) r"
    "unat (capacity (objs st q)) \<le> 2 ^ 31"
  shows "\<exists>st'. pop (total lt) q st = Some (Inr (), st') \<and>
           wellformed Q st' (T(q := Merge_spec (holds (total lt)) l r)) \<and>
           sized Q st' (T(q := Merge_spec (holds (total lt)) l r)) \<and>
           size_pq q st' = size_pq q st - 1 \<and> unat (size_pq q st') = unat (size_pq q st) - 1 \<and>
           cells st' pb = None \<and> cells st pb \<noteq> None \<and>
           (\<forall>x. x \<noteq> pb \<longrightarrow> (cells st' x = None) = (cells st x = None)) \<and>
           (\<exists>nb h. cells st pb = Some nb \<and>
               MergeNode (total lt) (ls nb) (rs nb) (cells st) = Some (Inr (root (objs st' q)), h)) \<and>
           mset_tree (elems (Merge_spec (holds (total lt)) l r)) + {#v#} = mset_tree (elems (T q)) \<and>
           (\<forall>q'. q' \<noteq> q \<longrightarrow> objs st' q' = objs st q')"
proof -
  let ?cmp = "total lt"
  let ?M = "Merge_spec (holds ?cmp) l r"
  have "unat (capacity (objs st q)) = size (T q)" using assms(2,3) by (simp add: sized_def)
  then have "unat (capacity (objs st q)) \<noteq> 0" using assms(4) by simp
  then have ne: "capacity (objs st q) \<noteq> 0" by (simp add: unat_eq_0)
  have total: "\<not> (\<exists>x y. ?cmp x y = None)" by (simp add: total_def)
  from pop_step[OF assms(1,3,4) ne, of ?cmp] total
  obtain st' where p: "pop ?cmp q st = Some (Inr (), st')"
    and wf': "wellformed Q st' (T(q := ?M))"
    and o0: "objs st' = (objs st)(q := \<lparr>capacity = scast (ucast (capacity (objs st q) - 1) :: 32 word),
               root = root_ptr ?M\<rparr>)"
    and freed: "cells st' pb = None"
    and live: "\<forall>x. x \<noteq> pb \<longrightarrow> (cells st' x = None) = (cells st x = None)"
    and mn: "\<exists>nb h. cells st pb = Some nb \<and>
               MergeNode ?cmp (ls nb) (rs nb) (cells st) = Some (Inr (root (objs st' q)), h) \<and>
               cells st' = h(pb := None)"
    by blast
  have o': "objs st' = (objs st)(q := \<lparr>capacity = capacity (objs st q) - 1, root = root_ptr ?M\<rparr>)"
    using o0 by (simp only: pop_size(1)[OF ne assms(5)])
  have u: "unat (capacity (objs st q) - 1) = unat (capacity (objs st q)) - 1"
    by (rule pop_size(2)[OF ne assms(5)])
  have sz': "sized Q st' (T(q := ?M))"
    using assms(2,3,4) u by (auto simp: sized_def o' size_Merge_spec)
  have ms: "mset_tree (elems ?M) + {#v#} = mset_tree (elems (T q))"
    by (simp add: assms(4) elems_def mset_map_tree mset_tree_Merge_spec)
  have 1: "size_pq q st' = size_pq q st - 1" by (simp add: size_pq_def o')
  have 2: "unat (size_pq q st') = unat (size_pq q st) - 1" using u by (simp add: size_pq_def o')
  have 3: "cells st pb \<noteq> None" using mn by auto
  have 4: "\<exists>nb h. cells st pb = Some nb \<and>
               MergeNode ?cmp (ls nb) (rs nb) (cells st) = Some (Inr (root (objs st' q)), h)"
    using mn by blast
  have 5: "\<forall>q'. q' \<noteq> q \<longrightarrow> objs st' q' = objs st q'" by (simp add: o')
  show ?thesis
    using p wf' sz' 1 2 freed 3 live 4 ms 5 by (intro exI[of _ st'] conjI)
qed

theorem pop_within_int_range_witness:
  "wellformed {0} four_heap (\<lambda>q. four_tree) \<and> sized {0} four_heap (\<lambda>q. four_tree) \<and>
   unat (capacity (objs four_heap 0)) \<le> 2 ^ 31 \<and>
   (\<exists>st'. pop (total (<)) 0 four_heap = Some (Inr (), st') \<and> size_pq 0 st' = 3 \<and>
      cells st' 4 = None \<and> cells st' 1 \<noteq> None \<and> cells st' 2 \<noteq> None \<and> cells st' 3 \<noteq> None)"
proof -
  have T: "(\<lambda>q::nat. four_tree) 0 = Node (Node Leaf (2, 8) (Node Leaf (3, 3) Leaf)) (4, 9) (Node Leaf (1, 5) Leaf)"
    by (simp add: four_tree_def)
  have le: "unat (capacity (objs four_heap 0)) \<le> 2 ^ 31" by (simp add: four_heap_def)
  have z: "(0::nat) \<in> {0}" by simp
  from pop_within_int_range[OF wellformed_four_heap sized_four_heap z T le, of "(<)"]
  obtain st' where p: "pop (total (<)) 0 four_heap = Some (Inr (), st')"
    and s: "size_pq 0 st' = size_pq 0 four_heap - 1" and f: "cells st' 4 = None"
    and l: "\<forall>x. x \<noteq> 4 \<longrightarrow> (cells st' x = None) = (cells four_heap x = None)"
    by blast
  have s': "size_pq 0 st' = 3" using s by (simp add: size_pq_def four_heap_def)
  have "cells st' 1 \<noteq> None" "cells st' 2 \<noteq> None" "cells st' 3 \<noteq> None"
    using l by (simp_all add: four_heap_def four_cells_def)
  with p s' f have "\<exists>st'. pop (total (<)) 0 four_heap = Some (Inr (), st') \<and> size_pq 0 st' = 3 \<and>
      cells st' 4 = None \<and> cells st' 1 \<noteq> None \<and> cells st' 2 \<noteq> None \<and> cells st' 3 \<noteq> None"
    by blast
  then show ?thesis using wellformed_four_heap sized_four_heap le by blast
qed

lemma copies_are_independent:
  assumes "wellformed Q st T" "a \<in> Q" "c \<noteq> a"
    "made = (if c \<in> Q then assign c a st else priority_queue_copy c a st)"
    "c \<in> Q \<or> T a \<noteq> Leaf"
  shows "\<exists>st1 t. made = Some (Inr (), st1) \<and>
           size_pq c st1 = size_pq a st \<and> top_pq c st1 = top_pq a st \<and>
           tree_at (cells st1) (root (objs st1 c)) t \<and> elems t = elems (T a) \<and>
           distinct (addrs t) \<and> set (addrs t) \<inter> set (addrs (T a)) = {} \<and>
           size_pq a st1 = size_pq a st \<and> top_pq a st1 = top_pq a st \<and>
           tree_at (cells st1) (root (objs st1 a)) (T a) \<and>
           (\<forall>cs st2. (\<forall>k\<in>set cs. call_objs k \<subseteq> insert c Q \<and> a \<notin> targets k) \<longrightarrow>
               run cmp cs st1 = Some st2 \<longrightarrow>
               size_pq a st2 = size_pq a st \<and> top_pq a st2 = top_pq a st \<and>
               tree_at (cells st2) (root (objs st2 a)) (T a))"
proof -
  let ?R = "relabel (fresh st) (T a)"
  let ?Q = "insert c Q"
  have "\<exists>st1. made = Some (Inr (), st1) \<and> wellformed ?Q st1 (T(c := ?R)) \<and>
          objs st1 = (objs st)(c := \<lparr>capacity = capacity (objs st a), root = root_ptr ?R\<rparr>)"
  proof (cases "c \<in> Q")
    case True
    then have Q: "insert c Q = Q" by blast
    from assign_step[OF assms(1) True assms(2,3)] show ?thesis
      using True assms(4) by (auto simp: Q)
  next
    case False
    then have ne: "T a \<noteq> Leaf" using assms(5) by simp
    have "\<exists>st'. priority_queue_copy c a st = Some (Inr (), st') \<and>
           wellformed ?Q st' (T(c := ?R)) \<and>
           objs st' = (objs st)(c := \<lparr>capacity = capacity (objs st a), root = Some (fresh st)\<rparr>)"
    proof -
      have a: "\<forall>x. cells st x \<noteq> None \<longrightarrow> x < fresh st" using wf_alloc[OF assms(1)] by blast
      from copy_ctor[OF assms(1,2) ne, of c]
      obtain st' where c: "priority_queue_copy c a st = Some (Inr (), st')"
        and ob: "objs st' = (objs st)(c := \<lparr>capacity = capacity (objs st a), root = Some (fresh st)\<rparr>)"
        and tr: "tree_at (cells st') (Some (fresh st)) ?R"
        and fr: "fresh st' = fresh st + size (T a)"
        and old: "\<forall>x < fresh st. cells st' x = cells st x"
        and al: "\<forall>x. cells st' x \<noteq> None \<longrightarrow> x < fresh st'"
        by blast
      have "wellformed ?Q st' (T(c := ?R))"
      proof (rule wf_insert[OF assms(1) False])
        show "tree_at (cells st') (root (objs st' c)) ?R" using tr by (simp add: ob)
        show "distinct (addrs ?R)" by (simp add: addrs_relabel)
        show "\<forall>q'\<in>Q. set (addrs (T q')) \<inter> set (addrs ?R) = {}"
          using wf_below[OF assms(1)] by (fastforce simp: addrs_relabel)
        show "\<forall>x. x \<notin> set (addrs ?R) \<longrightarrow> cells st' x = cells st x"
        proof (intro allI impI)
          fix x assume x: "x \<notin> set (addrs ?R)"
          show "cells st' x = cells st x"
          proof (cases "x < fresh st")
            case True
            then show ?thesis using old by simp
          next
            case False
            then have "\<not> x < fresh st'" using x by (simp add: addrs_relabel fr)
            then have "cells st' x = None" using al by blast
            moreover have "cells st x = None" using False a by blast
            ultimately show ?thesis by simp
          qed
        qed
        show "\<forall>q'. q' \<noteq> c \<longrightarrow> objs st' q' = objs st q'" by (simp add: ob)
        show "\<forall>x. cells st' x \<noteq> None \<longrightarrow> x < fresh st'" by (rule al)
      qed
      with c ob show ?thesis by blast
    qed
    then show ?thesis using False assms(4) ne by (auto simp: root_ptr_relabel)
  qed
  then obtain st1 where m: "made = Some (Inr (), st1)"
    and wf1: "wellformed ?Q st1 (T(c := ?R))"
    and ob: "objs st1 = (objs st)(c := \<lparr>capacity = capacity (objs st a), root = root_ptr ?R\<rparr>)"
    by blast
  have aQ: "a \<in> ?Q" and cQ: "c \<in> ?Q" using assms(2) by simp_all
  have tc: "tree_at (cells st1) (root (objs st1 c)) ?R" using wf_tree[OF wf1 cQ] by simp
  have ta: "tree_at (cells st1) (root (objs st1 a)) (T a)"
    using wf_tree[OF wf1 aQ] assms(3) by simp
  have ta0: "tree_at (cells st) (root (objs st a)) (T a)" by (rule wf_tree[OF assms(1,2)])
  have oa: "objs st1 a = objs st a" using assms(3) by (simp add: ob)
  have 1: "size_pq c st1 = size_pq a st" by (simp add: size_pq_def ob)
  have 2: "top_pq c st1 = top_pq a st"
    by (rule top_pq_relabel[OF ta0 tc]) (simp add: ob)
  have 3: "distinct (addrs ?R)" by (rule wf_distinct[OF wf1 cQ, simplified])
  have 4: "set (addrs ?R) \<inter> set (addrs (T a)) = {}"
    using wf_disjoint[OF wf1 cQ aQ assms(3)] assms(3) by simp
  have 5: "size_pq a st1 = size_pq a st" by (simp add: size_pq_def oa)
  have 6: "top_pq a st1 = top_pq a st"
    by (simp add: top_pq_tree[OF ta] top_pq_tree[OF ta0] oa)
  have 7: "\<forall>cs st2. (\<forall>k\<in>set cs. call_objs k \<subseteq> ?Q \<and> a \<notin> targets k) \<longrightarrow>
               run cmp cs st1 = Some st2 \<longrightarrow>
               size_pq a st2 = size_pq a st \<and> top_pq a st2 = top_pq a st \<and>
               tree_at (cells st2) (root (objs st2 a)) (T a)"
  proof (intro allI impI)
    fix cs st2
    assume cs: "\<forall>k\<in>set cs. call_objs k \<subseteq> ?Q \<and> a \<notin> targets k" and r: "run cmp cs st1 = Some st2"
    have Ta: "(T(c := ?R)) a = T a" using assms(3) by simp
    from untouched_by_run[OF wf1 aQ cs r]
    have "tree_at (cells st2) (root (objs st2 a)) ((T(c := ?R)) a)"
      "size_pq a st2 = size_pq a st1" "top_pq a st2 = top_pq a st1"
      by blast+
    then show "size_pq a st2 = size_pq a st \<and> top_pq a st2 = top_pq a st \<and>
               tree_at (cells st2) (root (objs st2 a)) (T a)"
      using 5 6 Ta by simp
  qed
  have 8: "elems ?R = elems (T a)" by simp
  show ?thesis
    using m 1 2 tc 8 3 4 5 6 ta 7 by (intro exI[of _ st1] exI[of _ ?R] conjI)
qed

text \<open>
  Copy independence. After \<^verbatim>\<open>c = a\<close> for two different queues of a well-formed state,
  or after the copy constructor has built \<open>c\<close> from a non-empty queue \<open>a\<close> in memory
  that held no queue, \<open>c\<close> has the size and the \<^verbatim>\<open>top\<close> of \<open>a\<close> and a tree with the
  same shape and values on nodes of its own, and \<open>a\<close> is as before. After that, any
  sequence of calls that does not name \<open>a\<close> as the queue written to (pushes and pops on
  \<open>c\<close> among them; the comparator may throw) leaves the size, the \<^verbatim>\<open>top\<close> and the tree
  of \<open>a\<close> unchanged.
\<close>

theorem copy_independence:
  assumes "wellformed Q st T" "a \<in> Q" "c \<noteq> a" "c \<in> Q \<or> T a \<noteq> Leaf"
  shows "\<exists>st1 t. (if c \<in> Q then assign c a st else priority_queue_copy c a st) = Some (Inr (), st1) \<and>
           size_pq c st1 = size_pq a st \<and> top_pq c st1 = top_pq a st \<and>
           tree_at (cells st1) (root (objs st1 c)) t \<and> elems t = elems (T a) \<and>
           distinct (addrs t) \<and> set (addrs t) \<inter> set (addrs (T a)) = {} \<and>
           size_pq a st1 = size_pq a st \<and> top_pq a st1 = top_pq a st \<and>
           tree_at (cells st1) (root (objs st1 a)) (T a) \<and>
           (\<forall>cs st2. (\<forall>k\<in>set cs. call_objs k \<subseteq> insert c Q \<and> a \<notin> targets k) \<longrightarrow>
               run cmp cs st1 = Some st2 \<longrightarrow>
               size_pq a st2 = size_pq a st \<and> top_pq a st2 = top_pq a st \<and>
               tree_at (cells st2) (root (objs st2 a)) (T a))"
  by (rule copies_are_independent[OF assms(1,2,3) refl assms(4)])

lemma two_heaps_assigned_run:
  "\<exists>st1 st2. assign 1 0 two_heaps = Some (Inr (), st1) \<and>
      run less_int [Push 1 9, Pop 1, Pop 1] st1 = Some st2"
  by (simp add: less_int_def total_def two_heaps_def two_nodes_def push_def pop_def
      assign_def empty_pq_def MergeNode.simps ClearNode.simps copy.simps load_def store_def Let_def)

lemma two_heaps_copied_run:
  "\<exists>st2. run less_int [Push 2 9, Pop 2, Pop 2] (built_from_node 1) = Some st2"
  by (simp add: less_int_def total_def built_from_node_def two_nodes_def push_def pop_def
      empty_pq_def MergeNode.simps load_def store_def Let_def)

lemma two_heaps_copied:
  "priority_queue_copy 2 0 two_heaps = Some (Inr (), built_from_node 1)"
  by (simp add: priority_queue_copy_def copy.simps two_heaps_def two_nodes_def
      built_from_node_def load_def store_def Let_def fun_upd_twist)

theorem copy_independence_witness:
  "wellformed {0, 1} two_heaps two_trees \<and>
   (\<exists>st1 st2. assign 1 0 two_heaps = Some (Inr (), st1) \<and>
      size_pq 1 st1 = 1 \<and> top_pq 1 st1 = Inr 4 \<and>
      run less_int [Push 1 9, Pop 1, Pop 1] st1 = Some st2 \<and>
      size_pq 0 st2 = 1 \<and> top_pq 0 st2 = Inr 4) \<and>
   (\<exists>st2. priority_queue_copy 2 0 two_heaps = Some (Inr (), built_from_node 1) \<and>
      size_pq 2 (built_from_node 1) = 1 \<and> top_pq 2 (built_from_node 1) = Inr 4 \<and>
      run less_int [Push 2 9, Pop 2, Pop 2] (built_from_node 1) = Some st2 \<and>
      size_pq 0 st2 = 1 \<and> top_pq 0 st2 = Inr 4)"
proof -
  have s0: "size_pq 0 two_heaps = 1" by (simp add: size_pq_def two_heaps_def)
  have t0: "top_pq 0 two_heaps = Inr 4"
    by (simp add: top_pq_def empty_pq_def two_heaps_def two_nodes_def)
  have ne: "(1::nat) \<in> {0, 1} \<or> two_trees 0 \<noteq> Leaf" "(2::nat) \<in> {0, 1} \<or> two_trees 0 \<noteq> Leaf"
    by (simp_all add: two_trees_def tree4_def)
  have in0: "(0::nat) \<in> {0, 1}" and ne1: "(1::nat) \<noteq> 0" and ne2: "(2::nat) \<noteq> 0" by simp_all
  have c1: "\<forall>k\<in>set [Push 1 9, Pop 1, Pop 1 :: int call]. call_objs k \<subseteq> insert 1 {0, 1} \<and> 0 \<notin> targets k"
    by simp
  have c2: "\<forall>k\<in>set [Push 2 9, Pop 2, Pop 2 :: int call]. call_objs k \<subseteq> insert 2 {0, 1} \<and> 0 \<notin> targets k"
    by simp
  from two_heaps_assigned_run obtain st1 st2
    where a: "assign 1 0 two_heaps = Some (Inr (), st1)"
      and r: "run less_int [Push 1 9, Pop 1, Pop 1] st1 = Some st2"
    by blast
  from copy_independence[OF wellformed_two_heaps in0 ne1 ne(1), of less_int] a
  have p1: "size_pq 1 st1 = size_pq 0 two_heaps" "top_pq 1 st1 = top_pq 0 two_heaps"
    and all1: "\<forall>cs st2. (\<forall>k\<in>set cs. call_objs k \<subseteq> insert 1 {0, 1} \<and> 0 \<notin> targets k) \<longrightarrow>
               run less_int cs st1 = Some st2 \<longrightarrow>
               size_pq 0 st2 = size_pq 0 two_heaps \<and> top_pq 0 st2 = top_pq 0 two_heaps \<and>
               tree_at (cells st2) (root (objs st2 0)) (two_trees 0)"
    by auto
  from all1 c1 r have q1: "size_pq 0 st2 = size_pq 0 two_heaps" "top_pq 0 st2 = top_pq 0 two_heaps"
    by blast+
  have 1: "\<exists>st1 st2. assign 1 0 two_heaps = Some (Inr (), st1) \<and>
      size_pq 1 st1 = 1 \<and> top_pq 1 st1 = Inr 4 \<and>
      run less_int [Push 1 9, Pop 1, Pop 1] st1 = Some st2 \<and>
      size_pq 0 st2 = 1 \<and> top_pq 0 st2 = Inr 4"
    using a r p1 q1 by (intro exI[of _ st1] exI[of _ st2] conjI) (simp_all only: s0 t0)
  from two_heaps_copied_run obtain st3
    where r3: "run less_int [Push 2 9, Pop 2, Pop 2] (built_from_node 1) = Some st3"
    by blast
  from copy_independence[OF wellformed_two_heaps in0 ne2 ne(2), of less_int] two_heaps_copied
  have p2: "size_pq 2 (built_from_node 1) = size_pq 0 two_heaps"
      "top_pq 2 (built_from_node 1) = top_pq 0 two_heaps"
    and all2: "\<forall>cs st2. (\<forall>k\<in>set cs. call_objs k \<subseteq> insert 2 {0, 1} \<and> 0 \<notin> targets k) \<longrightarrow>
               run less_int cs (built_from_node 1) = Some st2 \<longrightarrow>
               size_pq 0 st2 = size_pq 0 two_heaps \<and> top_pq 0 st2 = top_pq 0 two_heaps \<and>
               tree_at (cells st2) (root (objs st2 0)) (two_trees 0)"
    by auto
  from all2 c2 r3 have q2: "size_pq 0 st3 = size_pq 0 two_heaps" "top_pq 0 st3 = top_pq 0 two_heaps"
    by blast+
  have 2: "\<exists>st2. priority_queue_copy 2 0 two_heaps = Some (Inr (), built_from_node 1) \<and>
      size_pq 2 (built_from_node 1) = 1 \<and> top_pq 2 (built_from_node 1) = Inr 4 \<and>
      run less_int [Push 2 9, Pop 2, Pop 2] (built_from_node 1) = Some st2 \<and>
      size_pq 0 st2 = 1 \<and> top_pq 0 st2 = Inr 4"
    using two_heaps_copied r3 p2 q2 by (intro exI[of _ st3] conjI) (simp_all only: s0 t0)
  show ?thesis using wellformed_two_heaps 1 2 by (intro conjI)
qed

text \<open>
  \<^verbatim>\<open>push\<close> on a queue of a well-formed, size-consistent state whose size is below
  \<open>2^64 - 1\<close>. Either the comparator throws at some pair of values, and then the call
  returns normally and leaves every queue and every node as it was (the new node is
  deleted again); or the call succeeds: the tree becomes the merge of the old tree with
  the new single node, the size grows by exactly 1, the elements are those before plus
  the pushed value, and every other queue is as before.
\<close>

theorem push_adds_element:
  assumes "wellformed Q st T" "sized Q st T" "q \<in> Q" "unat (capacity (objs st q)) < 2 ^ 64 - 1"
  shows "((\<exists>x y. cmp x y = None) \<and> push cmp e q st = Some (Inr (), st\<lparr>fresh := Suc (fresh st)\<rparr>)) \<or>
         (\<exists>st'. push cmp e q st = Some (Inr (), st') \<and>
            wellformed Q st' (T(q := Merge_spec (holds cmp) (T q) (Node Leaf (fresh st, e) Leaf))) \<and>
            sized Q st' (T(q := Merge_spec (holds cmp) (T q) (Node Leaf (fresh st, e) Leaf))) \<and>
            size_pq q st' = size_pq q st + 1 \<and> unat (size_pq q st') = Suc (unat (size_pq q st)) \<and>
            mset_tree (elems (Merge_spec (holds cmp) (T q) (Node Leaf (fresh st, e) Leaf))) =
              mset_tree (elems (T q)) + {#e#} \<and>
            (\<forall>q'. q' \<noteq> q \<longrightarrow> objs st' q' = objs st q'))"
proof -
  let ?M = "Merge_spec (holds cmp) (T q) (Node Leaf (fresh st, e) Leaf)"
  from push_step[OF assms(1,3), of cmp e] show ?thesis
  proof
    assume "push cmp e q st = Some (Inr (), st\<lparr>fresh := Suc (fresh st)\<rparr>) \<and> (\<exists>x y. cmp x y = None)"
    then show ?thesis by blast
  next
    assume "\<exists>st'. push cmp e q st = Some (Inr (), st') \<and> wellformed Q st' (T(q := ?M)) \<and>
            objs st' = (objs st)(q := \<lparr>capacity = capacity (objs st q) + 1, root = root_ptr ?M\<rparr>) \<and>
            fresh st' = Suc (fresh st)"
    then obtain st' where p: "push cmp e q st = Some (Inr (), st')"
      and wf': "wellformed Q st' (T(q := ?M))"
      and o': "objs st' = (objs st)(q := \<lparr>capacity = capacity (objs st q) + 1, root = root_ptr ?M\<rparr>)"
      by blast
    have u: "unat (capacity (objs st q) + 1) = Suc (unat (capacity (objs st q)))"
      by (rule unat_succ[OF assms(4)])
    have sz': "sized Q st' (T(q := ?M))"
      using assms(2,3) u by (auto simp: sized_def o' size_Merge_spec)
    have 1: "size_pq q st' = size_pq q st + 1" by (simp add: size_pq_def o')
    have 2: "unat (size_pq q st') = Suc (unat (size_pq q st))" using u by (simp add: size_pq_def o')
    have 3: "mset_tree (elems ?M) = mset_tree (elems (T q)) + {#e#}"
      by (simp add: elems_def mset_map_tree mset_tree_Merge_spec)
    have 4: "\<forall>q'. q' \<noteq> q \<longrightarrow> objs st' q' = objs st q'" by (simp add: o')
    have "\<exists>st'. push cmp e q st = Some (Inr (), st') \<and> wellformed Q st' (T(q := ?M)) \<and>
            sized Q st' (T(q := ?M)) \<and>
            size_pq q st' = size_pq q st + 1 \<and> unat (size_pq q st') = Suc (unat (size_pq q st)) \<and>
            mset_tree (elems ?M) = mset_tree (elems (T q)) + {#e#} \<and>
            (\<forall>q'. q' \<noteq> q \<longrightarrow> objs st' q' = objs st q')"
      using p wf' sz' 1 2 3 4 by (intro exI[of _ st'] conjI)
    then show ?thesis by (rule disjI2)
  qed
qed

theorem push_adds_element_witness:
  "wellformed {0} four_heap (\<lambda>q. four_tree) \<and> sized {0} four_heap (\<lambda>q. four_tree) \<and>
   unat (capacity (objs four_heap 0)) < 2 ^ 64 - 1 \<and>
   (\<exists>st'. push less_int 7 0 four_heap = Some (Inr (), st') \<and> size_pq 0 st' = 5 \<and>
      objs st' 1 = objs four_heap 1)"
proof -
  have lt: "unat (capacity (objs four_heap 0)) < 2 ^ 64 - 1" by (simp add: four_heap_def)
  have z: "(0::nat) \<in> {0}" by simp
  have total: "\<not> (\<exists>x y. less_int x y = None)" by (simp add: less_int_def total_def)
  from push_adds_element[OF wellformed_four_heap sized_four_heap z lt, of less_int 7] total
  obtain st' where p: "push less_int 7 0 four_heap = Some (Inr (), st')"
    and s: "size_pq 0 st' = size_pq 0 four_heap + 1"
    and o: "\<forall>q'. q' \<noteq> 0 \<longrightarrow> objs st' q' = objs four_heap q'"
    by blast
  have s': "size_pq 0 st' = 5" using s by (simp add: size_pq_def four_heap_def)
  have "objs st' 1 = objs four_heap 1" using o by simp
  with p s' have "\<exists>st'. push less_int 7 0 four_heap = Some (Inr (), st') \<and> size_pq 0 st' = 5 \<and>
      objs st' 1 = objs four_heap 1"
    by blast
  then show ?thesis using wellformed_four_heap sized_four_heap lt by blast
qed

section \<open>Where the code departs from the claims\<close>

lemma built_from_node_run:
  "priority_queue_from_node 2 (Some 1) c two_heaps = Some (Inr (), built_from_node c)"
  by (simp add: priority_queue_from_node_def copy.simps two_heaps_def two_nodes_def
      built_from_node_def load_def store_def Let_def fun_upd_twist)

lemma built_from_node_pop:
  assumes "c \<noteq> 0"
  shows "pop less_int 2 (built_from_node c) =
         Some (Inr (), popped (scast (ucast (c - 1) :: 32 word)))"
proof -
  have "(two_nodes(3 \<mapsto> \<lparr>val = 4::int, ls = None, rs = None\<rparr>))(3 := None) = two_nodes"
    by (auto simp: fun_eq_iff two_nodes_def)
  then show ?thesis using assms
    by (simp add: pop_def built_from_node_def popped_def empty_pq_def MergeNode.simps Let_def)
qed

lemma int_wrap:
  "scast (ucast ((2147483649::64 word) - 1) :: 32 word) = (18446744071562067968::64 word)"
  by code_simp

text \<open>
  Claim C4 at a queue whose size is \<open>2^31 + 1\<close>, here built by the constructor from a
  node pointer and a capacity: \<^verbatim>\<open>pop\<close> passes \<^verbatim>\<open>capacity - 1\<close> through an
  \<^verbatim>\<open>int\<close>, and the size becomes \<open>2^64 - 2^31\<close> instead of \<open>2^31\<close>.
\<close>

theorem pop_size_through_int:
  "priority_queue_from_node 2 (Some 1) 2147483649 two_heaps =
     Some (Inr (), built_from_node 2147483649) \<and>
   size_pq 2 (built_from_node 2147483649) = 2147483649 \<and>
   pop less_int 2 (built_from_node 2147483649) = Some (Inr (), popped 18446744071562067968) \<and>
   size_pq 2 (popped 18446744071562067968) = 18446744071562067968"
proof -
  have ne: "(2147483649::64 word) \<noteq> 0" by simp
  have 1: "pop less_int 2 (built_from_node 2147483649) = Some (Inr (), popped 18446744071562067968)"
    using built_from_node_pop[OF ne] by (simp only: int_wrap)
  have 2: "size_pq 2 (built_from_node 2147483649) = 2147483649"
    by (simp add: size_pq_def built_from_node_def)
  have 3: "size_pq 2 (popped 18446744071562067968) = 18446744071562067968"
    by (simp add: size_pq_def popped_def)
  show ?thesis using built_from_node_run[of 2147483649] 1 2 3 by (intro conjI)
qed

text \<open>
  Claim C8 at an empty source. The copy constructor does not initialise \<^verbatim>\<open>root\<close>,
  and \<^verbatim>\<open>copy\<close> returns at once for a null source: the new queue at object 2 keeps
  the pointer its memory held, here the address of the root node of the queue at object 0,
  while its source at object 1 has a null root. A \<^verbatim>\<open>push\<close> of 1 on the new queue
  then writes into that node, and \<^verbatim>\<open>top\<close> returns 9.
\<close>

theorem copy_of_empty_keeps_stale_root:
  "size_pq 1 stale_memory = 0 \<and> root (objs stale_memory 1) = None \<and>
   priority_queue_copy 2 1 stale_memory = Some (Inr (), stale_copy) \<and>
   size_pq 2 stale_copy = 0 \<and> root (objs stale_copy 2) = Some 4 \<and>
   root (objs stale_copy 0) = Some 4 \<and>
   push less_int 1 2 stale_copy = Some (Inr (), stale_pushed) \<and>
   top_pq 2 stale_pushed = Inr 9 \<and>
   cells stale_copy 4 = Some \<lparr>val = 9, ls = Some 2, rs = Some 1\<rparr> \<and>
   cells stale_pushed 4 = Some \<lparr>val = 9, ls = Some 1, rs = Some 2\<rparr>"
proof -
  have 1: "size_pq 1 stale_memory = 0" "root (objs stale_memory 1) = None"
    by (simp_all add: stale_memory_def four_heap_def size_pq_def)
  have 2: "priority_queue_copy 2 1 stale_memory = Some (Inr (), stale_copy)"
    by (simp add: priority_queue_copy_def stale_memory_def stale_copy_def four_heap_def
        copy.simps Let_def)
  have 3: "size_pq 2 stale_copy = 0" "root (objs stale_copy 2) = Some 4"
    "root (objs stale_copy 0) = Some 4"
    "cells stale_copy 4 = Some \<lparr>val = 9, ls = Some 2, rs = Some 1\<rparr>"
    by (simp_all add: stale_copy_def four_heap_def four_cells_def size_pq_def)
  have 4: "push less_int 1 2 stale_copy = Some (Inr (), stale_pushed)"
    by (simp add: push_def stale_copy_def stale_pushed_def four_heap_def four_cells_def
        less_int_def total_def MergeNode.simps Let_def)
  have 5: "top_pq 2 stale_pushed = Inr 9"
    "cells stale_pushed 4 = Some \<lparr>val = 9, ls = Some 1, rs = Some 2\<rparr>"
    by (simp_all add: stale_pushed_def top_pq_def empty_pq_def four_heap_def four_cells_def)
  show ?thesis using 1 2 3 4 5 by (intro conjI)
qed

text \<open>
  The constructor from a node pointer has the same gap for a null pointer:
  \<^verbatim>\<open>priority_queue(nullptr, 0)\<close> on the raw memory at object 2 of \<open>stale_memory\<close>
  stores the size 0 and leaves \<^verbatim>\<open>root\<close> as it was, so the size is 0 while the root
  leads to four nodes.
\<close>

lemma null_node_keeps_stale_root:
  "priority_queue_from_node 2 None 0 stale_memory = Some (Inr (), stale_copy) \<and>
   size_pq 2 stale_copy = 0 \<and>
   tree_at (cells stale_copy) (root (objs stale_copy 2)) four_tree \<and>
   \<not> consistent 2 stale_copy"
proof -
  have 1: "priority_queue_from_node 2 None 0 stale_memory = Some (Inr (), stale_copy)"
    by (simp add: priority_queue_from_node_def copy.simps stale_memory_def stale_copy_def
        four_heap_def)
  have 2: "size_pq 2 stale_copy = 0"
    by (simp add: size_pq_def stale_copy_def four_heap_def)
  have 3: "tree_at (cells stale_copy) (root (objs stale_copy 2)) four_tree"
    by (simp add: stale_copy_def four_heap_def four_cells_def four_tree_def)
  have d: "distinct (addrs four_tree)" by (simp add: four_tree_def)
  have "consistent 2 stale_copy \<longleftrightarrow> unat (capacity (objs stale_copy 2)) = size four_tree"
    by (rule consistent_tree[OF 3 d])
  then have 4: "\<not> consistent 2 stale_copy"
    by (simp add: stale_copy_def four_heap_def four_tree_def)
  show ?thesis using 1 2 3 4 by (intro conjI)
qed

end
